theory Spec2Isabelle
  imports
    Main
    "HOL-Library.Char_ord"
    "HOL-Library.List_Lexorder"
    "HOL-Library.Multiset"
begin

section \<open>Strings and machine integers as the Go code uses them\<close>

text \<open>
  Go strings are byte sequences: \<open>string\<close> (a \<open>char list\<close>). Go's \<open>int\<close> and \<open>int64\<close> are
  64-bit two's complement on the 64-bit Linux targets the Dockerfile builds for;
  they are modelled as \<open>int\<close> with the wrap-around of \<open>+\<close> and \<open>*\<close> written out by
  \<open>wrap64\<close>, and \<open>/\<close> as the truncating quotient \<open>tdiv\<close>.
\<close>

definition int64 :: "int \<Rightarrow> bool" where
  "int64 x \<longleftrightarrow> - (2 ^ 63) \<le> x \<and> x < 2 ^ 63"

definition wrap64 :: "int \<Rightarrow> int" where
  "wrap64 x = (x + 2 ^ 63) mod 2 ^ 64 - 2 ^ 63"

definition tdiv :: "int \<Rightarrow> int \<Rightarrow> int" where
  "tdiv a b = sgn a * sgn b * (\<bar>a\<bar> div \<bar>b\<bar>)"

definition isDigit :: "char \<Rightarrow> bool" where
  "isDigit c \<longleftrightarrow> c \<in> set ''0123456789''"

definition isAlnum :: "char \<Rightarrow> bool" where
  "isAlnum c \<longleftrightarrow>
     c \<in> set ''ABCDEFGHIJKLMNOPQRSTUVWXYZabcdefghijklmnopqrstuvwxyz0123456789''"

definition digitVal :: "char \<Rightarrow> nat" where
  \<comment> \<open>the position of a digit among the ten digits\<close>
  "digitVal c = length (takeWhile (\<lambda>d. d \<noteq> c) ''0123456789'')"

definition digitsVal :: "string \<Rightarrow> nat" where
  "digitsVal ds = foldl (\<lambda>acc c. acc * 10 + digitVal c) 0 ds"

text \<open>
  \<open>strconv.ParseInt(s, 10, 64)\<close>: an optional sign, then one or more decimal digits;
  a value outside the int64 range is an error (\<open>ErrRange\<close>), as is any other character
  (\<open>ErrSyntax\<close>). \<open>strconv.Atoi\<close> is the same function on a 64-bit \<open>int\<close>.
\<close>

definition ParseInt :: "string \<Rightarrow> int option" where
  "ParseInt s =
     (let (neg, ds) =
        (case s of
           [] \<Rightarrow> (False, [])
         | c # r \<Rightarrow>
             if c = CHR ''-'' then (True, r)
             else if c = CHR ''+'' then (False, r)
             else (False, s))
      in if ds = [] \<or> \<not> list_all isDigit ds then None
         else let v = (if neg then - int (digitsVal ds) else int (digitsVal ds))
              in if int64 v then Some v else None)"

definition Atoi :: "string \<Rightarrow> int option" where
  "Atoi s = ParseInt s"

text \<open>\<open>strconv.FormatInt(i, 10)\<close>.\<close>

fun showNat :: "nat \<Rightarrow> string" where
  "showNat n =
     (if n < 10 then [''0123456789'' ! n]
      else showNat (n div 10) @ [''0123456789'' ! (n mod 10)])"

declare showNat.simps [simp del]

definition FormatInt :: "int \<Rightarrow> string" where
  "FormatInt i = (if i < 0 then CHR ''-'' # showNat (nat (- i)) else showNat (nat i))"

section \<open>Metadata parser and classifier (handlers.go)\<close>

text \<open>
  \<open>snapshotRegex = `snapshot-(\d+)-([A-Za-z0-9]+)\.json$`\<close>. The pattern is anchored at
  the end of the key only. \<open>matchHere\<close> matches it at the start of its argument: the
  literal \<open>snapshot-\<close>, a greedy run of digits, \<open>-\<close>, a greedy run of alphanumerics and
  \<open>.json\<close> up to the end of the text (the character that must follow each run is outside
  the run's class, so backtracking into a run never helps). \<open>FindStringSubmatch\<close> returns
  the leftmost match: it tries every start position from the left.
\<close>

fun stripPrefix :: "string \<Rightarrow> string \<Rightarrow> string option" where
  "stripPrefix [] s = Some s"
| "stripPrefix (p # ps) [] = None"
| "stripPrefix (p # ps) (c # cs) = (if p = c then stripPrefix ps cs else None)"

definition matchHere :: "string \<Rightarrow> (string \<times> string) option" where
  "matchHere s =
     (case stripPrefix ''snapshot-'' s of
        None \<Rightarrow> None
      | Some r \<Rightarrow>
          let ds = takeWhile isDigit r; r1 = dropWhile isDigit r
          in if ds = [] then None
             else (case r1 of
                     [] \<Rightarrow> None
                   | c # r2 \<Rightarrow>
                       if c \<noteq> CHR ''-'' then None
                       else let nd = takeWhile isAlnum r2; r3 = dropWhile isAlnum r2
                            in if nd = [] then None
                               else if r3 = ''.json'' then Some (ds, nd)
                               else None))"

fun FindStringSubmatch :: "string \<Rightarrow> (string \<times> string) option" where
  "FindStringSubmatch [] = matchHere []"
| "FindStringSubmatch (c # cs) =
     (case matchHere (c # cs) of
        Some m \<Rightarrow> Some m
      | None \<Rightarrow> FindStringSubmatch cs)"

definition isSnapshotMetadataFile :: "string \<Rightarrow> bool" where
  "isSnapshotMetadataFile key \<longleftrightarrow> FindStringSubmatch key \<noteq> None"

definition extractSlotAndNode :: "string \<Rightarrow> int \<times> string" where
  "extractSlotAndNode key =
     (case FindStringSubmatch key of
        None \<Rightarrow> (0, [])
      | Some (ds, nd) \<Rightarrow>
          (case ParseInt ds of
             None \<Rightarrow> (0, [])
           | Some slot \<Rightarrow> (slot, nd)))"

definition getSlotRange :: "int \<Rightarrow> string" where
  "getSlotRange slot =
     (let rangeSize = 1000000;
          rangeStart = wrap64 (tdiv slot rangeSize * rangeSize);
          rangeEnd = wrap64 (rangeStart + rangeSize)
      in if rangeStart = 0 then ''< 1M''
         else FormatInt (tdiv rangeStart 1000000) @ ''M-'' @
              FormatInt (tdiv rangeEnd 1000000) @ ''M'')"

definition sidecarShape :: "string \<Rightarrow> string \<Rightarrow> string \<Rightarrow> string \<Rightarrow> bool" where
  \<comment> \<open>The naming convention in words: \<open>key\<close> is \<open>pre\<close> followed by
      \<open>snapshot-<ds>-<nd>.json\<close>, \<open>ds\<close> a digit string, \<open>nd\<close> alphanumeric.\<close>
  "sidecarShape pre ds nd key \<longleftrightarrow>
     key = pre @ ''snapshot-'' @ ds @ ''-'' @ nd @ ''.json'' \<and>
     ds \<noteq> [] \<and> list_all isDigit ds \<and> nd \<noteq> [] \<and> list_all isAlnum nd"

section \<open>Data model (models.go, s3/service.go)\<close>

text \<open>
  \<open>time.Time\<close> without a monotonic reading: seconds since January 1 of year 1 and
  nanoseconds. The zero value is the zero \<open>Time\<close>; \<open>time.Unix(s, 0)\<close> adds the offset of
  the Unix epoch in int64 arithmetic.
\<close>

record Time =
  sec :: int
  nsec :: int

definition zeroTime :: Time where
  "zeroTime = \<lparr>sec = 0, nsec = 0\<rparr>"

definition Unix :: "int \<Rightarrow> Time" where
  "Unix s = \<lparr>sec = wrap64 (s + 62135596800), nsec = 0\<rparr>"

definition IsZero :: "Time \<Rightarrow> bool" where
  "IsZero t \<longleftrightarrow> sec t = 0 \<and> nsec t = 0"

definition After :: "Time \<Rightarrow> Time \<Rightarrow> bool" where
  "After t u \<longleftrightarrow> sec t > sec u \<or> (sec t = sec u \<and> nsec t > nsec u)"

definition Before :: "Time \<Rightarrow> Time \<Rightarrow> bool" where
  "Before t u \<longleftrightarrow> sec t < sec u \<or> (sec t = sec u \<and> nsec t < nsec u)"

record Metadata =
  SolanaVersion :: string
  SolanaFeatureSet :: int
  Slot :: int
  Timestamp :: Time
  Hash :: string
  Status :: string
  UploadedBy :: string
  UploadedAt :: Time
  FileSize :: int
  FileName :: string
  Node :: string
  SlotRange :: string

record MetadataFilter =
  fSolanaVersion :: string
  fSolanaFeatureSet :: int
  fStatus :: string
  fUploadedBy :: string
  fNode :: string
  fSlotRange :: string
  fStartTime :: Time
  fEndTime :: Time
  fMinSlot :: int
  fMaxSlot :: int
  fSearchTerm :: string
  fPage :: int
  fPageSize :: int

definition emptyMetadata :: Metadata where
  \<comment> \<open>the zero value of \<open>models.Metadata\<close>\<close>
  "emptyMetadata =
     \<lparr>SolanaVersion = [], SolanaFeatureSet = 0, Slot = 0, Timestamp = zeroTime, Hash = [],
      Status = [], UploadedBy = [], UploadedAt = zeroTime, FileSize = 0, FileName = [],
      Node = [], SlotRange = []\<rparr>"

definition emptyFilter :: MetadataFilter where
  \<comment> \<open>the zero value of \<open>models.MetadataFilter\<close>\<close>
  "emptyFilter =
     \<lparr>fSolanaVersion = [], fSolanaFeatureSet = 0, fStatus = [], fUploadedBy = [], fNode = [],
      fSlotRange = [], fStartTime = zeroTime, fEndTime = zeroTime, fMinSlot = 0, fMaxSlot = 0,
      fSearchTerm = [], fPage = 0, fPageSize = 0\<rparr>"

record Object =
  Key :: string
  Size :: int
  LastModified :: Time
  ETag :: string
  IsMetadata :: bool
  IsTarGz :: bool

record SimpleMetadata =
  sSolanaVersion :: string
  sStatus :: string
  sUploadedBy :: string

text \<open>
  What \<open>encoding/json\<close> delivers for a sidecar body. \<open>Strict\<close>: \<open>json.Unmarshal\<close> into
  \<open>SimpleMetadata\<close> succeeded. \<open>Generic\<close>: it failed and \<open>json.Unmarshal\<close> into
  \<open>map[string]interface{}\<close> succeeded; the association list holds the entries of the map
  (a JSON number is a float64 there; \<open>JNumber\<close> carries the value of its conversion
  \<open>int64(f)\<close>, which is all the handlers use). \<open>Unparsable\<close>: both failed.
  What \<open>GetObject\<close> and \<open>io.ReadAll\<close> deliver for a key: an error of either, or the
  content length and the body.
\<close>

datatype jvalue = JString string | JNumber int | JOther

datatype sidecar = Strict SimpleMetadata | Generic "(string \<times> jvalue) list" | Unparsable

datatype fetched = GetFailed | ReadFailed | Body int sidecar

section \<open>Filter and query engine (handlers.go)\<close>

definition defaultPageSize :: int where "defaultPageSize = 20"

definition maxPageSize :: int where "maxPageSize = 100"

definition getPaginationParams :: "string \<Rightarrow> string \<Rightarrow> int \<times> int" where
  \<comment> \<open>the arguments are the query values of \<open>page\<close> and \<open>page_size\<close>, empty when absent\<close>
  "getPaginationParams pageStr pageSizeStr =
     (let page =
            (if pageStr \<noteq> [] then
               (case Atoi pageStr of
                  Some pageInt \<Rightarrow> if pageInt > 0 then pageInt else 1
                | None \<Rightarrow> 1)
             else 1);
          pageSize =
            (if pageSizeStr \<noteq> [] then
               (case Atoi pageSizeStr of
                  Some pageSizeInt \<Rightarrow>
                    if pageSizeInt > 0 then
                      (if pageSizeInt > maxPageSize then maxPageSize else pageSizeInt)
                    else defaultPageSize
                | None \<Rightarrow> defaultPageSize)
             else defaultPageSize)
      in (page, pageSize))"

definition calculatePaginationBounds :: "int \<Rightarrow> int \<Rightarrow> int \<Rightarrow> int \<times> int" where
  "calculatePaginationBounds page pageSize totalItems =
     (let start = wrap64 (wrap64 (page - 1) * pageSize);
          endIdx = wrap64 (start + pageSize)
      in if start \<ge> totalItems then (0, 0)
         else if endIdx > totalItems then (start, totalItems)
         else (start, endIdx))"

datatype failure = SliceBoundsPanic | CloseOfClosedChannel | SendOnClosedChannel

definition sliceList :: "'a list \<Rightarrow> int \<Rightarrow> int \<Rightarrow> failure + 'a list" where
  \<comment> \<open>the slice expression \<open>xs[lo:hi]\<close> with \<open>hi\<close> within the length: it panics unless
      \<open>0 \<le> lo \<le> hi\<close>\<close>
  "sliceList xs lo hi =
     (if 0 \<le> lo \<and> lo \<le> hi \<and> hi \<le> int (length xs)
      then Inr (take (nat (hi - lo)) (drop (nat lo) xs))
      else Inl SliceBoundsPanic)"

definition paginate :: "int \<Rightarrow> int \<Rightarrow> 'a list \<Rightarrow> failure + ('a list \<times> int)" where
  \<comment> \<open>the pagination step of \<open>ListMetadata\<close>: the items of the page and the total count\<close>
  "paginate page pageSize metadataList =
     (let totalCount = int (length metadataList);
          (start, endIdx) = calculatePaginationBounds page pageSize totalCount
      in if start < totalCount then
           (case sliceList metadataList start (if endIdx > totalCount then totalCount else endIdx) of
              Inl e \<Rightarrow> Inl e
            | Inr items \<Rightarrow> Inr (items, totalCount))
         else Inr ([], totalCount))"

text \<open>
  \<open>strings.ToLower\<close> returns a string of ASCII bytes with \<open>A\<close> to \<open>Z\<close> replaced by \<open>a\<close> to
  \<open>z\<close>. A string with a byte from \<open>0x80\<close> up goes through
  \<open>strings.Map(unicode.ToLower, s)\<close> instead, which decodes UTF-8 and consults the case
  tables of the Go library. Those tables are not part of this repository: that function
  is the parameter \<open>unicodeLower\<close>, here and in everything that calls \<open>ToLower\<close>.
\<close>

definition isASCII :: "string \<Rightarrow> bool" where
  \<comment> \<open>no byte \<open>c >= utf8.RuneSelf\<close>, which is \<open>0x80\<close>: the top bit of every byte is clear\<close>
  "isASCII s = list_all (\<lambda>c. \<not> digit7 c) s"

definition lowerASCII :: "char \<Rightarrow> char" where
  \<comment> \<open>\<open>if 'A' <= c && c <= 'Z' { c += 'a' - 'A' }\<close>\<close>
  "lowerASCII c =
     (case map_of (zip ''ABCDEFGHIJKLMNOPQRSTUVWXYZ'' ''abcdefghijklmnopqrstuvwxyz'') c of
        Some l \<Rightarrow> l
      | None \<Rightarrow> c)"

definition ToLower :: "(string \<Rightarrow> string) \<Rightarrow> string \<Rightarrow> string" where
  "ToLower unicodeLower s = (if isASCII s then map lowerASCII s else unicodeLower s)"

fun HasPrefix :: "string \<Rightarrow> string \<Rightarrow> bool" where
  "HasPrefix s [] = True"
| "HasPrefix [] (p # ps) = False"
| "HasPrefix (c # cs) (p # ps) = (c = p \<and> HasPrefix cs ps)"

fun Contains :: "string \<Rightarrow> string \<Rightarrow> bool" where
  "Contains [] substr = (substr = [])"
| "Contains (c # cs) substr = (HasPrefix (c # cs) substr \<or> Contains cs substr)"

definition HasSuffix :: "string \<Rightarrow> string \<Rightarrow> bool" where
  "HasSuffix s suffix = HasPrefix (rev s) (rev suffix)"

definition matchesFilter ::
  "(string \<Rightarrow> string) \<Rightarrow> Metadata \<Rightarrow> MetadataFilter \<Rightarrow> bool" where
  "matchesFilter unicodeLower metadata flt =
     (if fSolanaVersion flt \<noteq> [] \<and> SolanaVersion metadata \<noteq> fSolanaVersion flt then False
      else if fStatus flt \<noteq> [] \<and> Status metadata \<noteq> fStatus flt then False
      else if fUploadedBy flt \<noteq> [] \<and> UploadedBy metadata \<noteq> fUploadedBy flt then False
      else if fNode flt \<noteq> [] \<and> Node metadata \<noteq> fNode flt then False
      else if fSlotRange flt \<noteq> [] \<and> SlotRange metadata \<noteq> fSlotRange flt then False
      else if fMinSlot flt > 0 \<and> Slot metadata < fMinSlot flt then False
      else if fMaxSlot flt > 0 \<and> Slot metadata > fMaxSlot flt then False
      else if \<not> IsZero (fStartTime flt) \<and> Before (Timestamp metadata) (fStartTime flt)
        then False
      else if \<not> IsZero (fEndTime flt) \<and> After (Timestamp metadata) (fEndTime flt)
        then False
      else if fSearchTerm flt \<noteq> [] then
        (let searchTerm = ToLower unicodeLower (fSearchTerm flt)
         in if \<not> Contains (ToLower unicodeLower (SolanaVersion metadata)) searchTerm \<and>
               \<not> Contains (ToLower unicodeLower (Status metadata)) searchTerm \<and>
               \<not> Contains (ToLower unicodeLower (UploadedBy metadata)) searchTerm \<and>
               \<not> Contains (ToLower unicodeLower (Node metadata)) searchTerm \<and>
               \<not> Contains (ToLower unicodeLower (Hash metadata)) searchTerm \<and>
               \<not> Contains (ToLower unicodeLower (FileName metadata)) searchTerm
            then False
            else True)
      else True)"

text \<open>
  \<open>sort.Slice\<close> runs insertion sort on a slice of at most 12 elements (longer slices go
  through pattern-defeating quicksort, which agrees with it whenever the comparator is a
  strict weak order on the elements, up to the order of equivalent ones):
  \<^verbatim>\<open>for i := a + 1; i < b; i++ { for j := i; j > a && less(j, j-1); j-- { swap(j, j-1) } }\<close>
  \<open>insertionStep\<close> moves the new element \<open>x\<close> to the left through the sorted prefix, which
  is kept in reverse (its rightmost element first).
\<close>

fun insertionStep :: "('a \<Rightarrow> 'a \<Rightarrow> bool) \<Rightarrow> 'a \<Rightarrow> 'a list \<Rightarrow> 'a list" where
  "insertionStep lt x [] = [x]"
| "insertionStep lt x (r # rs) =
     (if lt x r then r # insertionStep lt x rs else x # r # rs)"

definition sortSlice :: "('a \<Rightarrow> 'a \<Rightarrow> bool) \<Rightarrow> 'a list \<Rightarrow> 'a list" where
  "sortSlice lt xs = rev (foldl (\<lambda>pre x. insertionStep lt x pre) [] xs)"

definition metadataLess :: "Metadata \<Rightarrow> Metadata \<Rightarrow> bool" where
  \<comment> \<open>the comparator of \<open>ListMetadata\<close>\<close>
  "metadataLess a b =
     (if IsZero (Timestamp a) \<or> IsZero (Timestamp b) then Slot a > Slot b
      else After (Timestamp a) (Timestamp b))"

definition jstring :: "(string \<times> jvalue) list \<Rightarrow> string \<Rightarrow> string option" where
  \<comment> \<open>\<open>rawData[k].(string)\<close>\<close>
  "jstring rawData k = (case map_of rawData k of Some (JString s) \<Rightarrow> Some s | _ \<Rightarrow> None)"

definition jnumber :: "(string \<times> jvalue) list \<Rightarrow> string \<Rightarrow> int option" where
  \<comment> \<open>\<open>rawData[k].(float64)\<close>, converted to int64\<close>
  "jnumber rawData k = (case map_of rawData k of Some (JNumber n) \<Rightarrow> Some n | _ \<Rightarrow> None)"

definition metadataFromGeneric :: "string \<Rightarrow> int \<Rightarrow> (string \<times> jvalue) list \<Rightarrow> Metadata" where
  \<comment> \<open>the fallback branch of \<open>ListMetadata\<close>\<close>
  "metadataFromGeneric key len rawData =
     (let m0 = emptyMetadata\<lparr>FileName := key, FileSize := len\<rparr>;
          m1 = (case jstring rawData ''solana_version'' of
                  Some version \<Rightarrow> m0\<lparr>SolanaVersion := version\<rparr> | None \<Rightarrow> m0);
          m2 = (case jstring rawData ''status'' of
                  Some status \<Rightarrow> m1\<lparr>Status := status\<rparr> | None \<Rightarrow> m1);
          m3 = (case jstring rawData ''uploaded_by'' of
                  Some uploader \<Rightarrow> m2\<lparr>UploadedBy := uploader\<rparr> | None \<Rightarrow> m2);
          m4 = (case jnumber rawData ''slot'' of
                  Some slot \<Rightarrow> m3\<lparr>Slot := slot\<rparr> | None \<Rightarrow> m3);
          m5 = (case jstring rawData ''hash'' of
                  Some hash \<Rightarrow> m4\<lparr>Hash := hash\<rparr> | None \<Rightarrow> m4);
          m6 = (case jnumber rawData ''timestamp'' of
                  Some timestamp \<Rightarrow> m5\<lparr>Timestamp := Unix timestamp\<rparr> | None \<Rightarrow> m5)
      in if isSnapshotMetadataFile key then
           (let (slot, node) = extractSlotAndNode key;
                m7 = (if Slot m6 = 0 \<and> slot > 0 then m6\<lparr>Slot := slot\<rparr> else m6);
                m8 = (if Node m7 = [] \<and> node \<noteq> [] then m7\<lparr>Node := node\<rparr> else m7)
            in m8\<lparr>SlotRange := getSlotRange (Slot m8)\<rparr>)
         else m6)"

definition metadataFromSimple :: "string \<Rightarrow> int \<Rightarrow> SimpleMetadata \<Rightarrow> Metadata" where
  \<comment> \<open>the main branch of \<open>ListMetadata\<close>\<close>
  "metadataFromSimple key len simpleMetadata =
     (let m0 = emptyMetadata\<lparr>FileName := key, FileSize := len,
                 SolanaVersion := sSolanaVersion simpleMetadata,
                 Status := sStatus simpleMetadata,
                 UploadedBy := sUploadedBy simpleMetadata\<rparr>
      in if isSnapshotMetadataFile key then
           (let (slot, node) = extractSlotAndNode key
            in m0\<lparr>Slot := slot, Node := node, SlotRange := getSlotRange slot\<rparr>)
         else m0)"

record S3 =
  ListObjects :: "Object list option"
  GetObject :: "string \<Rightarrow> fetched"

fun collectMetadata ::
  "(string \<Rightarrow> string) \<Rightarrow> S3 \<Rightarrow> MetadataFilter \<Rightarrow> Object list \<Rightarrow> Metadata list" where
  \<comment> \<open>the loop of \<open>ListMetadata\<close> over the metadata files\<close>
  "collectMetadata unicodeLower s3 flt [] = []"
| "collectMetadata unicodeLower s3 flt (obj # objs) =
     (case GetObject s3 (Key obj) of
        GetFailed \<Rightarrow> collectMetadata unicodeLower s3 flt objs
      | ReadFailed \<Rightarrow> collectMetadata unicodeLower s3 flt objs
      | Body len (Strict simpleMetadata) \<Rightarrow>
          (let metadata = metadataFromSimple (Key obj) len simpleMetadata
           in if matchesFilter unicodeLower metadata flt
              then metadata # collectMetadata unicodeLower s3 flt objs
              else collectMetadata unicodeLower s3 flt objs)
      | Body len (Generic rawData) \<Rightarrow>
          (let metadata = metadataFromGeneric (Key obj) len rawData
           in if matchesFilter unicodeLower metadata flt
              then metadata # collectMetadata unicodeLower s3 flt objs
              else collectMetadata unicodeLower s3 flt objs)
      | Body len Unparsable \<Rightarrow> collectMetadata unicodeLower s3 flt objs)"

datatype response =
    RespondWithError nat string
  | RespondWithItems "Metadata list" int
  | HandlerPanic failure

definition ListMetadata ::
  "(string \<Rightarrow> string) \<Rightarrow> S3 \<Rightarrow> MetadataFilter \<Rightarrow> string \<Rightarrow> string \<Rightarrow> response" where
  \<comment> \<open>\<open>flt\<close> is the parsed query; the strings are the query values of \<open>page\<close> and
      \<open>page_size\<close>\<close>
  "ListMetadata unicodeLower s3 flt pageStr pageSizeStr =
     (let (page, pageSize) = getPaginationParams pageStr pageSizeStr
      in case ListObjects s3 of
           None \<Rightarrow> RespondWithError 500 ''Failed to list objects''
         | Some objects \<Rightarrow>
             (let metadataFiles = filter (\<lambda>obj. isSnapshotMetadataFile (Key obj)) objects
              in if metadataFiles = [] then RespondWithItems [] 0
                 else
                   (let metadataList =
                          sortSlice metadataLess
                            (collectMetadata unicodeLower s3 flt metadataFiles)
                    in case paginate page pageSize metadataList of
                         Inl e \<Rightarrow> HandlerPanic e
                       | Inr (items, totalCount) \<Rightarrow> RespondWithItems items totalCount)))"

section \<open>Facet indexer (handlers.go)\<close>

record FilterOptions =
  SolanaVersions :: "string list"
  Statuses :: "string list"
  UploadedBys :: "string list"
  Nodes :: "string list"
  SlotRanges :: "string list"

definition emptyOptions :: FilterOptions where
  "emptyOptions =
     \<lparr>SolanaVersions = [], Statuses = [], UploadedBys = [], Nodes = [], SlotRanges = []\<rparr>"

text \<open>
  The cache (cache/redis.go): values under string keys, each with the expiration in
  seconds it was stored with. \<open>Get\<close> of a missing key is an error, which the handlers
  treat as a miss.
\<close>

type_synonym RedisCache = "(string \<times> FilterOptions \<times> nat) list"

definition cacheGet :: "RedisCache \<Rightarrow> string \<Rightarrow> FilterOptions option" where
  "cacheGet c key = map_option fst (map_of c key)"

definition cacheSet :: "RedisCache \<Rightarrow> string \<Rightarrow> FilterOptions \<Rightarrow> nat \<Rightarrow> RedisCache" where
  "cacheSet c key v expiration = (key, v, expiration) # filter (\<lambda>e. fst e \<noteq> key) c"

definition cacheDelete :: "RedisCache \<Rightarrow> string \<Rightarrow> RedisCache" where
  "cacheDelete c key = filter (\<lambda>e. fst e \<noteq> key) c"

definition cacheExpiration :: nat where
  \<comment> \<open>\<open>5 * time.Minute\<close>, in seconds\<close>
  "cacheExpiration = 300"

definition metadataOptionsKey :: string where
  "metadataOptionsKey = ''metadata:options''"

text \<open>
  The handler's state: the cache service (\<open>None\<close> when Redis was not reachable at start),
  the published facets, and a count of the \<open>ListObjects\<close> calls made so far, so that
  "performs no storage listing" can be stated.
\<close>

record Handler =
  cacheService :: "RedisCache option"
  filterOptions :: FilterOptions
  listObjectsCalls :: nat

text \<open>
  The five maps \<open>map[string]bool\<close> of a pass are kept as the lists of their keys. The
  workers add keys under one mutex and every file is handled on its own, so the key
  sets after \<open>wg.Wait()\<close> are those of handling the files one after the other.
\<close>

record Accum =
  versions :: "string list"
  statuses :: "string list"
  uploaders :: "string list"
  nodes :: "string list"
  slotRanges :: "string list"

definition emptyAccum :: Accum where
  "emptyAccum = \<lparr>versions = [], statuses = [], uploaders = [], nodes = [], slotRanges = []\<rparr>"

definition setKey :: "string \<Rightarrow> string list \<Rightarrow> string list" where
  \<comment> \<open>\<open>m[k] = true\<close>\<close>
  "setKey k ks = (if k \<in> set ks then ks else ks @ [k])"

definition addKnown :: "string \<Rightarrow> string list \<Rightarrow> string list" where
  \<comment> \<open>\<open>if v != "" && v != "unknown" { m[v] = true }\<close>\<close>
  "addKnown v ks = (if v \<noteq> [] \<and> v \<noteq> ''unknown'' then setKey v ks else ks)"

definition addKnownField :: "(string \<times> jvalue) list \<Rightarrow> string \<Rightarrow> string list \<Rightarrow> string list" where
  \<comment> \<open>\<open>if v, ok := rawData[k].(string); ok && v != "" && v != "unknown" { m[v] = true }\<close>\<close>
  "addKnownField rawData k ks =
     (case jstring rawData k of Some v \<Rightarrow> addKnown v ks | None \<Rightarrow> ks)"

definition processFile :: "S3 \<Rightarrow> Accum \<Rightarrow> Object \<Rightarrow> Accum" where
  \<comment> \<open>the body of a worker's loop\<close>
  "processFile s3 acc obj =
     (let (slot, node) = extractSlotAndNode (Key obj);
          acc1 = (if slot > 0 \<and> node \<noteq> [] then
                    acc\<lparr>nodes := setKey node (nodes acc),
                        slotRanges := setKey (getSlotRange slot) (slotRanges acc)\<rparr>
                  else acc)
      in case GetObject s3 (Key obj) of
           GetFailed \<Rightarrow> acc1
         | ReadFailed \<Rightarrow> acc1
         | Body len (Strict simpleMetadata) \<Rightarrow>
             acc1\<lparr>versions := addKnown (sSolanaVersion simpleMetadata) (versions acc1),
                  statuses := addKnown (sStatus simpleMetadata) (statuses acc1),
                  uploaders := addKnown (sUploadedBy simpleMetadata) (uploaders acc1)\<rparr>
         | Body len (Generic rawData) \<Rightarrow>
             acc1\<lparr>versions := addKnownField rawData ''solana_version'' (versions acc1),
                  statuses := addKnownField rawData ''status'' (statuses acc1),
                  uploaders := addKnownField rawData ''uploaded_by'' (uploaders acc1)\<rparr>
         | Body len Unparsable \<Rightarrow> acc1)"

fun Split :: "string \<Rightarrow> char \<Rightarrow> string list" where
  \<comment> \<open>\<open>strings.Split(s, sep)\<close> for a separator of one byte\<close>
  "Split [] sep = [[]]"
| "Split (c # cs) sep =
     (if c = sep then [] # Split cs sep
      else (case Split cs sep of
              [] \<Rightarrow> [[c]]
            | p # ps \<Rightarrow> (c # p) # ps))"

definition bothAtoi :: "string list \<Rightarrow> string list \<Rightarrow> nat \<Rightarrow> (int \<times> int) option" where
  \<comment> \<open>the component \<open>k\<close> of both versions, when both have it and both convert\<close>
  "bothAtoi vI vJ k =
     (if length vI > k \<and> length vJ > k then
        (case (Atoi (vI ! k), Atoi (vJ ! k)) of
           (Some a, Some b) \<Rightarrow> Some (a, b)
         | _ \<Rightarrow> None)
      else None)"

definition versionLess :: "string \<Rightarrow> string \<Rightarrow> bool" where
  \<comment> \<open>the comparator of the version facet; the steps are named after the code's comments
      and listed last to first\<close>
  "versionLess vi vj =
     (let vI = Split vi CHR ''.''; vJ = Split vj CHR ''.'';
          fallback = (vi < vj);
          patch = (case bothAtoi vI vJ 2 of
                     Some (patchI, patchJ) \<Rightarrow> patchI < patchJ
                   | None \<Rightarrow> fallback);
          minor = (case bothAtoi vI vJ 1 of
                     Some (minorI, minorJ) \<Rightarrow>
                       if minorI \<noteq> minorJ then minorI < minorJ else patch
                   | None \<Rightarrow> patch)
      in case bothAtoi vI vJ 0 of
           Some (majorI, majorJ) \<Rightarrow> if majorI \<noteq> majorJ then majorI < majorJ else minor
         | None \<Rightarrow> minor)"

definition leadingM :: "string \<Rightarrow> int" where
  \<comment> \<open>the number matched by \<open>^(\d+)M\<close>, 0 without a match; \<open>strconv.Atoi\<close> gives the
      largest int for digits out of range, and its error is dropped\<close>
  "leadingM s =
     (let ds = takeWhile isDigit s; r = dropWhile isDigit s
      in if ds \<noteq> [] \<and> (case r of [] \<Rightarrow> False | c # _ \<Rightarrow> c = CHR ''M'') then
           (case Atoi ds of Some n \<Rightarrow> n | None \<Rightarrow> 2 ^ 63 - 1)
         else 0)"

definition slotRangeLess :: "string \<Rightarrow> string \<Rightarrow> bool" where
  \<comment> \<open>the comparator of the slot-range facet\<close>
  "slotRangeLess a b =
     (let aNum = leadingM a; bNum = leadingM b
      in if a = ''< 1M'' then True
         else if b = ''< 1M'' then False
         else aNum < bNum)"

definition sortStrings :: "string list \<Rightarrow> string list" where
  \<comment> \<open>\<open>sort.Strings\<close>\<close>
  "sortStrings xs = sortSlice (<) xs"

datatype passOutcome = CacheHit | ListFailed | NoMetadataFiles | Indexed

definition cachedOptions :: "Handler \<Rightarrow> FilterOptions option" where
  \<comment> \<open>\<open>h.cacheService.Get(ctx, metadataOptionsKey, &options)\<close>, when there is a cache
      service\<close>
  "cachedOptions h =
     (case cacheService h of
        Some c \<Rightarrow> cacheGet c metadataOptionsKey
      | None \<Rightarrow> None)"

definition metadataFilesOf :: "Object list \<Rightarrow> Object list" where
  "metadataFilesOf objects =
     filter (\<lambda>obj. IsMetadata obj \<and> isSnapshotMetadataFile (Key obj)) objects"

text \<open>
  \<open>rangeKeys\<close> is the order in which \<open>for k := range m\<close> visits the keys of a map, which
  Go leaves unspecified: any function that returns a permutation of its argument.
\<close>

definition indexMetadata ::
  "S3 \<Rightarrow> (string list \<Rightarrow> string list) \<Rightarrow> Handler \<Rightarrow> passOutcome \<times> Handler" where
  "indexMetadata s3 rangeKeys h =
     (case cachedOptions h of
        Some options \<Rightarrow> (CacheHit, h\<lparr>filterOptions := options\<rparr>)
      | None \<Rightarrow>
          (let h1 = h\<lparr>listObjectsCalls := listObjectsCalls h + 1\<rparr>
           in case ListObjects s3 of
                None \<Rightarrow> (ListFailed, h1)
              | Some objects \<Rightarrow>
                  (let metadataFiles = metadataFilesOf objects
                   in if metadataFiles = [] then
                        (NoMetadataFiles, h1\<lparr>filterOptions := emptyOptions\<rparr>)
                      else
                        (let acc = foldl (processFile s3) emptyAccum metadataFiles;
                             versionsList = sortSlice versionLess (rangeKeys (versions acc));
                             statusesList = sortStrings (rangeKeys (statuses acc));
                             uploadersList = sortStrings (rangeKeys (uploaders acc));
                             nodesList = sortStrings (rangeKeys (nodes acc));
                             slotRangesList = sortSlice slotRangeLess (rangeKeys (slotRanges acc))
                         in (Indexed,
                             h1\<lparr>filterOptions :=
                                  (filterOptions h1)
                                    \<lparr>SolanaVersions := versionsList,
                                     Statuses := statusesList,
                                     UploadedBys := uploadersList,
                                     Nodes := nodesList,
                                     SlotRanges := slotRangesList\<rparr>\<rparr>)))))"

definition DebugReindex ::
  "S3 \<Rightarrow> (string list \<Rightarrow> string list) \<Rightarrow> Handler \<Rightarrow> passOutcome \<times> Handler" where
  \<comment> \<open>the cache entry is deleted, then a pass runs\<close>
  "DebugReindex s3 rangeKeys h =
     indexMetadata s3 rangeKeys
       (h\<lparr>cacheService := map_option (\<lambda>c. cacheDelete c metadataOptionsKey) (cacheService h)\<rparr>)"

definition optionsClean :: "FilterOptions \<Rightarrow> bool" where
  \<comment> \<open>neither the empty string nor \<open>unknown\<close> is offered as a version, status or uploader\<close>
  "optionsClean opts \<longleftrightarrow>
     [] \<notin> set (SolanaVersions opts) \<and> ''unknown'' \<notin> set (SolanaVersions opts) \<and>
     [] \<notin> set (Statuses opts) \<and> ''unknown'' \<notin> set (Statuses opts) \<and>
     [] \<notin> set (UploadedBys opts) \<and> ''unknown'' \<notin> set (UploadedBys opts)"

section \<open>Realtime hub (websocket.go)\<close>

text \<open>
  A client is identified by a number (its address). \<open>send\<close> is each client's outbound
  channel, \<open>make(chan []byte, 256)\<close>: its buffered messages and whether it is closed.
  A non-blocking send (\<open>select\<close> with \<open>default\<close>) succeeds when the buffer has room.
\<close>

record Chan =
  buf :: "string list"
  closed :: bool

definition sendCap :: nat where "sendCap = 256"

record Hub =
  clients :: "nat list"
  send :: "nat \<Rightarrow> Chan"
  lastFiles :: "Object list"

datatype 'a outcome = Done 'a | Blocked | Panic failure

definition broadcastTo :: "string \<Rightarrow> nat \<Rightarrow> Hub \<Rightarrow> Hub outcome" where
  \<comment> \<open>the body of the loop over the clients in the broadcast case of \<open>Run\<close>\<close>
  "broadcastTo message client h =
     (let ch = send h client
      in if closed ch then Panic SendOnClosedChannel
         else if length (buf ch) < sendCap then
           Done (h\<lparr>send := (send h)(client := ch\<lparr>buf := buf ch @ [message]\<rparr>)\<rparr>)
         else
           Done (h\<lparr>send := (send h)(client := ch\<lparr>closed := True\<rparr>),
                   clients := removeAll client (clients h)\<rparr>))"

fun broadcastLoop :: "string \<Rightarrow> nat list \<Rightarrow> Hub \<Rightarrow> Hub outcome" where
  "broadcastLoop message [] h = Done h"
| "broadcastLoop message (client # rest) h =
     (case broadcastTo message client h of
        Done h' \<Rightarrow> broadcastLoop message rest h'
      | Blocked \<Rightarrow> Blocked
      | Panic e \<Rightarrow> Panic e)"

definition broadcast :: "string \<Rightarrow> Hub \<Rightarrow> Hub outcome" where
  \<comment> \<open>\<open>case message := <-h.broadcast\<close>: every client registered when the event is taken
      is visited once\<close>
  "broadcast message h = broadcastLoop message (clients h) h"

definition unregister :: "nat \<Rightarrow> Hub \<Rightarrow> Hub outcome" where
  \<comment> \<open>\<open>case client := <-h.unregister\<close>\<close>
  "unregister client h =
     (if client \<in> set (clients h) then
        (if closed (send h client) then Panic CloseOfClosedChannel
         else Done (h\<lparr>clients := removeAll client (clients h),
                       send := (send h)(client := (send h client)\<lparr>closed := True\<rparr>)\<rparr>))
      else Done h)"

definition register :: "(Object list \<Rightarrow> string option) \<Rightarrow> nat \<Rightarrow> Hub \<Rightarrow> Hub outcome" where
  \<comment> \<open>\<open>case client := <-h.register\<close>; \<open>marshal\<close> is \<open>json.Marshal\<close>. The send of the
      snapshot is a blocking one.\<close>
  "register marshal client h =
     (let h1 = h\<lparr>clients := (if client \<in> set (clients h) then clients h
                              else clients h @ [client])\<rparr>
      in if lastFiles h1 \<noteq> [] then
           (case marshal (lastFiles h1) of
              Some data \<Rightarrow>
                (let ch = send h1 client
                 in if closed ch then Panic SendOnClosedChannel
                    else if length (buf ch) < sendCap then
                      Done (h1\<lparr>send := (send h1)(client := ch\<lparr>buf := buf ch @ [data]\<rparr>)\<rparr>)
                    else Blocked)
            | None \<Rightarrow> Done h1)
         else Done h1)"

definition NewHub :: Hub where
  "NewHub = \<lparr>clients = [], send = (\<lambda>c. \<lparr>buf = [], closed = False\<rparr>), lastFiles = []\<rparr>"

definition ServeWs :: "(Object list \<Rightarrow> string option) \<Rightarrow> nat \<Rightarrow> Hub \<Rightarrow> Hub outcome" where
  \<comment> \<open>a new client with its channel \<open>make(chan []byte, 256)\<close> is registered\<close>
  "ServeWs marshal client h =
     register marshal client (h\<lparr>send := (send h)(client := \<lparr>buf = [], closed = False\<rparr>)\<rparr>)"

definition writePumpReceive :: "nat \<Rightarrow> Hub \<Rightarrow> Hub" where
  \<comment> \<open>\<open>case message, ok := <-c.send\<close> in the client's \<open>writePump\<close>: the oldest queued
      message is taken\<close>
  "writePumpReceive client h =
     (case buf (send h client) of
        [] \<Rightarrow> h
      | message # rest \<Rightarrow> h\<lparr>send := (send h)(client := (send h client)\<lparr>buf := rest\<rparr>)\<rparr>)"

inductive reachable :: "Hub \<Rightarrow> bool" where
  \<comment> \<open>the states of the hub: the events of \<open>Run\<close>, taken one at a time, and the clients'
      receives in between\<close>
  start: "reachable NewHub"
| served: "reachable h \<Longrightarrow> client \<notin> set (clients h) \<Longrightarrow> ServeWs marshal client h = Done h' \<Longrightarrow>
     reachable h'"
| unregistered: "reachable h \<Longrightarrow> unregister client h = Done h' \<Longrightarrow> reachable h'"
| broadcasted: "reachable h \<Longrightarrow> broadcast message h = Done h' \<Longrightarrow> reachable h'"
| received: "reachable h \<Longrightarrow> reachable (writePumpReceive client h)"
| polled: "reachable h \<Longrightarrow> reachable (h\<lparr>lastFiles := objects\<rparr>)"

definition hubInv :: "Hub \<Rightarrow> bool" where
  \<comment> \<open>every registered client's channel is open, and no client is registered twice\<close>
  "hubInv h \<longleftrightarrow> distinct (clients h) \<and> list_all (\<lambda>c. \<not> closed (send h c)) (clients h)"

section \<open>The filter in the words of the specification\<close>

definition isSubstring :: "string \<Rightarrow> string \<Rightarrow> bool" where
  "isSubstring sub s \<longleftrightarrow> (\<exists>pre post. s = pre @ sub @ post)"

definition sameLetter :: "char \<Rightarrow> char \<Rightarrow> bool" where
  \<comment> \<open>the same byte, or the capital and the small form of one of the 26 letters\<close>
  "sameLetter c d \<longleftrightarrow>
     c = d \<or>
     (c, d) \<in> set (zip ''ABCDEFGHIJKLMNOPQRSTUVWXYZ'' ''abcdefghijklmnopqrstuvwxyz'') \<or>
     (d, c) \<in> set (zip ''ABCDEFGHIJKLMNOPQRSTUVWXYZ'' ''abcdefghijklmnopqrstuvwxyz'')"

definition occursIgnoringCase :: "string \<Rightarrow> string \<Rightarrow> bool" where
  \<comment> \<open>a stretch of the field is the term, letter for letter, case aside\<close>
  "occursIgnoringCase term field \<longleftrightarrow>
     (\<exists>pre mid post. field = pre @ mid @ post \<and> list_all2 sameLetter mid term)"

definition fieldMatches :: "(string \<Rightarrow> string) \<Rightarrow> string \<Rightarrow> string \<Rightarrow> bool" where
  \<comment> \<open>on ASCII text the match ignores the case of the letters; with other bytes in the
      term or the field, case is what Go's lower-casing of the two strings removes\<close>
  "fieldMatches unicodeLower term field \<longleftrightarrow>
     (if isASCII term \<and> isASCII field then occursIgnoringCase term field
      else isSubstring (ToLower unicodeLower term) (ToLower unicodeLower field))"

definition searchMatches :: "(string \<Rightarrow> string) \<Rightarrow> string \<Rightarrow> Metadata \<Rightarrow> bool" where
  \<comment> \<open>the term matches one of the six searched fields\<close>
  "searchMatches unicodeLower term m \<longleftrightarrow>
     (\<exists>field \<in> {SolanaVersion m, Status m, UploadedBy m, Node m, Hash m, FileName m}.
        fieldMatches unicodeLower term field)"

definition passesSetFields ::
  "(string \<Rightarrow> string) \<Rightarrow> Metadata \<Rightarrow> MetadataFilter \<Rightarrow> bool" where
  \<comment> \<open>every filter field that is set is passed; a slot bound counts as set when it is
      positive, a time bound when it is not the zero time\<close>
  "passesSetFields unicodeLower m f \<longleftrightarrow>
     (fSolanaVersion f \<noteq> [] \<longrightarrow> SolanaVersion m = fSolanaVersion f) \<and>
     (fStatus f \<noteq> [] \<longrightarrow> Status m = fStatus f) \<and>
     (fUploadedBy f \<noteq> [] \<longrightarrow> UploadedBy m = fUploadedBy f) \<and>
     (fNode f \<noteq> [] \<longrightarrow> Node m = fNode f) \<and>
     (fSlotRange f \<noteq> [] \<longrightarrow> SlotRange m = fSlotRange f) \<and>
     (0 < fMinSlot f \<longrightarrow> fMinSlot f \<le> Slot m) \<and>
     (0 < fMaxSlot f \<longrightarrow> Slot m \<le> fMaxSlot f) \<and>
     (\<not> IsZero (fStartTime f) \<longrightarrow> \<not> Before (Timestamp m) (fStartTime f)) \<and>
     (\<not> IsZero (fEndTime f) \<longrightarrow> \<not> After (Timestamp m) (fEndTime f)) \<and>
     (fSearchTerm f \<noteq> [] \<longrightarrow> searchMatches unicodeLower (fSearchTerm f) m)"

section \<open>Notions for the indexer's properties\<close>





definition cleanKeys :: "string list \<Rightarrow> bool" where
  "cleanKeys ks \<longleftrightarrow> [] \<notin> set ks \<and> ''unknown'' \<notin> set ks"

definition deliver :: "string \<Rightarrow> Chan \<Rightarrow> Chan" where
  \<comment> \<open>what a broadcast does to the channel of a registered client: the message is queued
      when there is room, and the channel is closed when there is none\<close>
  "deliver message ch =
     (if length (buf ch) < sendCap then ch\<lparr>buf := buf ch @ [message]\<rparr>
      else ch\<lparr>closed := True\<rparr>)"

section \<open>Example buckets\<close>

definition object :: "string \<Rightarrow> Object" where
  \<comment> \<open>an entry as \<open>Service.ListObjects\<close> builds it from a key\<close>
  "object k =
     \<lparr>Key = k, Size = 0, LastModified = zeroTime, ETag = [],
      IsMetadata = HasSuffix k ''.json'', IsTarGz = HasSuffix k ''.tar.gz''\<rparr>"

definition mixedBucket :: S3 where
  \<comment> \<open>three sidecars, listed in key order: the first and the third carry a number where
      \<open>SimpleMetadata\<close> wants a string, so they are decoded as generic maps and have a
      timestamp; the second decodes into \<open>SimpleMetadata\<close> and has none\<close>
  "mixedBucket =
     \<lparr>ListObjects =
        Some [object ''snapshot-30-a.json'', object ''snapshot-4-b.json'',
              object ''snapshot-4-c.json''],
      GetObject = (\<lambda>k.
        if k = ''snapshot-30-a.json'' then
          Body 30 (Generic [(''status'', JNumber 1), (''timestamp'', JNumber 10)])
        else if k = ''snapshot-4-b.json'' then
          Body 20 (Strict \<lparr>sSolanaVersion = ''1.18.0'', sStatus = ''ok'', sUploadedBy = ''ci''\<rparr>)
        else if k = ''snapshot-4-c.json'' then
          Body 30 (Generic [(''status'', JNumber 1), (''timestamp'', JNumber 20)])
        else GetFailed)\<rparr>"

definition mA :: Metadata where
  \<comment> \<open>the records \<open>ListMetadata\<close> builds from the three sidecars of \<open>mixedBucket\<close>\<close>
  "mA = emptyMetadata\<lparr>FileName := ''snapshot-30-a.json'', FileSize := 30,
          Timestamp := Unix 10, Slot := 30, Node := ''a'', SlotRange := ''< 1M''\<rparr>"

definition mB :: Metadata where
  "mB = emptyMetadata\<lparr>FileName := ''snapshot-4-b.json'', FileSize := 20,
          SolanaVersion := ''1.18.0'', Status := ''ok'', UploadedBy := ''ci'',
          Slot := 4, Node := ''b'', SlotRange := ''< 1M''\<rparr>"

definition mC :: Metadata where
  "mC = emptyMetadata\<lparr>FileName := ''snapshot-4-c.json'', FileSize := 30,
          Timestamp := Unix 20, Slot := 4, Node := ''c'', SlotRange := ''< 1M''\<rparr>"

definition mD :: Metadata where
  \<comment> \<open>the record of a sidecar \<open>snapshot-9-d.json\<close> that, like the second, has no timestamp\<close>
  "mD = emptyMetadata\<lparr>FileName := ''snapshot-9-d.json'', FileSize := 20,
          SolanaVersion := ''1.18.0'', Status := ''ok'', UploadedBy := ''ci'',
          Slot := 9, Node := ''d'', SlotRange := ''< 1M''\<rparr>"

definition okFilter :: MetadataFilter where
  \<comment> \<open>the query \<open>status=ok&minSlot=1&maxSlot=10&searchTerm=SNAP\<close>\<close>
  "okFilter = emptyFilter\<lparr>fStatus := ''ok'', fMinSlot := 1, fMaxSlot := 10,
                fSearchTerm := ''SNAP''\<rparr>"

definition archiveBucket :: S3 where
  \<comment> \<open>a bucket with an archive and no sidecar\<close>
  "archiveBucket =
     \<lparr>ListObjects = Some [object ''snapshot-30-a.tar.gz''], GetObject = (\<lambda>k. GetFailed)\<rparr>"

definition flakyBucket :: S3 where
  \<comment> \<open>four sidecars: one cannot be fetched, one decodes into \<open>SimpleMetadata\<close>, one
      only as a generic map, one is not JSON\<close>
  "flakyBucket =
     \<lparr>ListObjects =
        Some [object ''snapshot-1-a.json'', object ''snapshot-2-b.json'',
              object ''snapshot-3-c.json'', object ''snapshot-4-d.json''],
      GetObject = (\<lambda>k.
        if k = ''snapshot-1-a.json'' then GetFailed
        else if k = ''snapshot-2-b.json'' then
          Body 20 (Strict \<lparr>sSolanaVersion = ''1.18.0'', sStatus = ''unknown'', sUploadedBy = []\<rparr>)
        else if k = ''snapshot-3-c.json'' then
          Body 30 (Generic [(''solana_version'', JString ''unknown''),
                            (''status'', JString ''ok''), (''uploaded_by'', JNumber 3)])
        else if k = ''snapshot-4-d.json'' then Body 5 Unparsable
        else GetFailed)\<rparr>"

definition freshHandler :: Handler where
  \<comment> \<open>the handler as \<open>NewHandler\<close> builds it, with a cache service that holds nothing\<close>
  "freshHandler = \<lparr>cacheService = Some [], filterOptions = emptyOptions, listObjectsCalls = 0\<rparr>"

definition downBucket :: S3 where
  \<comment> \<open>a storage that cannot be listed\<close>
  "downBucket = \<lparr>ListObjects = None, GetObject = (\<lambda>k. GetFailed)\<rparr>"

definition flakyOptions :: FilterOptions where
  \<comment> \<open>the facets of \<open>flakyBucket\<close>\<close>
  "flakyOptions =
     \<lparr>SolanaVersions = [''1.18.0''], Statuses = [''ok''], UploadedBys = [],
      Nodes = [''a'', ''b'', ''c'', ''d''], SlotRanges = [''< 1M'']\<rparr>"



definition busyHub :: Hub where
  \<comment> \<open>two registered clients: the queue of client 1 is full, that of client 2 is empty\<close>
  "busyHub =
     \<lparr>clients = [1, 2],
      send = (\<lambda>c. if c = 1 then \<lparr>buf = replicate 256 ''old'', closed = False\<rparr>
                   else \<lparr>buf = [], closed = False\<rparr>),
      lastFiles = []\<rparr>"


definition keepUnicode :: "string \<Rightarrow> string" where
  \<comment> \<open>a value for the parameter \<open>unicodeLower\<close> where an example has to name one. The
      strings of the examples are ASCII, so that it is never applied\<close>
  "keepUnicode s = s"
section \<open>Properties of the classifier\<close>

subsection \<open>Slot ranges\<close>

lemma wrap64_id: "int64 x \<Longrightarrow> wrap64 x = x"
  by (simp add: int64_def wrap64_def)

lemma tdiv_nonneg: "0 \<le> a \<Longrightarrow> 0 < b \<Longrightarrow> tdiv a b = a div b"
  by (cases "a = 0") (simp_all add: tdiv_def)

lemma getSlotRange_below:
  assumes "0 \<le> slot" "slot < 1000000"
  shows "getSlotRange slot = ''< 1M''"
  using assms by (simp add: getSlotRange_def tdiv_nonneg wrap64_def)

lemma getSlotRange_bucket:
  assumes lo: "1000000 \<le> slot" and hi: "slot < 9223372036854000000"
  shows "getSlotRange slot =
           FormatInt (slot div 1000000) @ ''M-'' @ FormatInt (slot div 1000000 + 1) @ ''M''"
proof -
  define q where "q = slot div 1000000"
  have q1: "1 \<le> q" and q2: "q \<le> 9223372036853"
    using lo hi unfolding q_def by simp_all
  have t1: "tdiv slot 1000000 = q"
    using lo by (simp add: tdiv_nonneg q_def)
  have s: "wrap64 (q * 1000000) = q * 1000000"
    using q1 q2 by (intro wrap64_id) (simp add: int64_def)
  have e: "wrap64 (q * 1000000 + 1000000) = (q + 1) * 1000000"
    using q1 q2 by (subst wrap64_id) (simp_all add: int64_def algebra_simps)
  have d1: "tdiv (q * 1000000) 1000000 = q"
    using q1 by (simp add: tdiv_nonneg)
  have d2: "tdiv ((q + 1) * 1000000) 1000000 = q + 1"
    using q1 by (simp add: tdiv_nonneg)
  have nz: "q * 1000000 \<noteq> 0" using q1 by simp
  show ?thesis
    unfolding getSlotRange_def Let_def t1 s e d1 d2 q_def[symmetric]
    using nz by simp
qed

lemma getSlotRange_examples:
  "getSlotRange 0 = ''< 1M''" "getSlotRange 999999 = ''< 1M''"
  "getSlotRange 1000000 = ''1M-2M''" "getSlotRange 2500000 = ''2M-3M''"
  by (simp_all add: getSlotRange_def wrap64_def tdiv_def FormatInt_def showNat.simps)

text \<open>
  C7. \<open>getSlotRange\<close> is to label a slot of 1,000,000 or more with the 1,000,000-wide
  window it falls in, \<open><start>M-<end>M\<close>. It does so for every slot below
  9,223,372,036,854,000,000 (\<open>getSlotRange_bucket\<close>; \<open>getSlotRange_below\<close> for the
  sentinel). For the slots from there up to the largest int64 the sum
  \<open>rangeStart + rangeSize\<close> wraps around: the key
  \<open>snapshot-9223372036854775807-n.json\<close> carries such a slot, and its label ends in a
  negative number instead of \<open>9223372036855M\<close>.
\<close>

theorem getSlotRange_wraps_at_top:
  "extractSlotAndNode ''snapshot-9223372036854775807-n.json'' = (9223372036854775807, ''n'') \<and>
   getSlotRange 9223372036854775807 = ''9223372036854M--9223372036854M'' \<and>
   getSlotRange 9223372036854775807 \<noteq>
     FormatInt (9223372036854775807 div 1000000) @ ''M-'' @
     FormatInt (9223372036854775807 div 1000000 + 1) @ ''M''"
  by (simp add: getSlotRange_def wrap64_def tdiv_def FormatInt_def showNat.simps
      extractSlotAndNode_def matchHere_def ParseInt_def isDigit_def isAlnum_def
      digitsVal_def digitVal_def int64_def)

subsection \<open>The sidecar naming pattern\<close>

lemma stripPrefix_Some: "stripPrefix p s = Some r \<longleftrightarrow> s = p @ r"
  by (induction p s rule: stripPrefix.induct) auto

lemma dash_not_digit: "\<not> isDigit CHR ''-''" by (simp add: isDigit_def)
lemma dash_not_alnum: "\<not> isAlnum CHR ''-''" by (simp add: isAlnum_def)
lemma dot_not_alnum: "\<not> isAlnum CHR ''.''" by (simp add: isAlnum_def)

lemma matchHere_sound:
  assumes "matchHere s = Some (ds, nd)"
  shows "sidecarShape [] ds nd s"
proof -
  from assms obtain r where r: "stripPrefix ''snapshot-'' s = Some r"
    by (auto simp: matchHere_def split: option.splits)
  then have s: "s = ''snapshot-'' @ r" by (simp only: stripPrefix_Some)
  from assms r have ds: "ds = takeWhile isDigit r" and dsne: "ds \<noteq> []"
    by (auto simp: matchHere_def Let_def split: option.splits list.splits if_splits)
  from assms r obtain r2 where r1: "dropWhile isDigit r = CHR ''-'' # r2"
    and nd: "nd = takeWhile isAlnum r2" and ndne: "nd \<noteq> []"
    and r3: "dropWhile isAlnum r2 = ''.json''"
    by (auto simp: matchHere_def Let_def split: option.splits list.splits if_splits)
  have "r = ds @ CHR ''-'' # r2"
    using takeWhile_dropWhile_id[of isDigit r] r1 ds by simp
  moreover have "r2 = nd @ ''.json''"
    using takeWhile_dropWhile_id[of isAlnum r2] r3 nd by simp
  moreover have "list_all isDigit ds" unfolding ds list_all_iff
    by (auto dest: set_takeWhileD)
  moreover have "list_all isAlnum nd" unfolding nd list_all_iff
    by (auto dest: set_takeWhileD)
  ultimately show ?thesis using s dsne ndne by (simp add: sidecarShape_def)
qed

lemma matchHere_complete:
  assumes "sidecarShape [] ds nd s"
  shows "matchHere s = Some (ds, nd)"
proof -
  from assms have s: "s = ''snapshot-'' @ ds @ ''-'' @ nd @ ''.json''"
    and dsne: "ds \<noteq> []" and dsd: "\<And>x. x \<in> set ds \<Longrightarrow> isDigit x"
    and ndne: "nd \<noteq> []" and nda: "\<And>x. x \<in> set nd \<Longrightarrow> isAlnum x"
    by (auto simp: sidecarShape_def list_all_iff)
  have sp: "stripPrefix ''snapshot-'' s = Some (ds @ CHR ''-'' # nd @ ''.json'')"
    unfolding stripPrefix_Some s by simp
  have t1: "takeWhile isDigit (ds @ CHR ''-'' # nd @ ''.json'') = ds"
    using dsd by (simp add: takeWhile_append2 dash_not_digit)
  have d1: "dropWhile isDigit (ds @ CHR ''-'' # nd @ ''.json'') = CHR ''-'' # nd @ ''.json''"
    using dsd by (simp add: dropWhile_append2 dash_not_digit)
  have t2: "takeWhile isAlnum (nd @ ''.json'') = nd"
    using nda by (simp add: takeWhile_append2 dot_not_alnum)
  have d2: "dropWhile isAlnum (nd @ ''.json'') = ''.json''"
    using nda by (simp add: dropWhile_append2 dot_not_alnum)
  show ?thesis
    unfolding matchHere_def sp using dsne ndne by (simp add: Let_def t1 d1 t2 d2)
qed

lemma FindStringSubmatch_sound:
  "FindStringSubmatch key = Some (ds, nd) \<Longrightarrow> \<exists>pre. sidecarShape pre ds nd key"
proof (induction key)
  case Nil
  then show ?case by (simp add: matchHere_def)
next
  case (Cons c cs)
  show ?case
  proof (cases "matchHere (c # cs)")
    case None
    with Cons obtain pre where "sidecarShape pre ds nd cs" by auto
    then have "sidecarShape (c # pre) ds nd (c # cs)" by (simp add: sidecarShape_def)
    then show ?thesis ..
  next
    case (Some m)
    with Cons.prems have "matchHere (c # cs) = Some (ds, nd)" by simp
    then have "sidecarShape [] ds nd (c # cs)" by (rule matchHere_sound)
    then show ?thesis ..
  qed
qed

lemma split_at_sep:
  assumes "xs @ a # X = ys @ a # Y" "a \<notin> set xs" "a \<notin> set ys"
  shows "xs = ys \<and> X = Y"
  using assms
proof (induction xs arbitrary: ys)
  case Nil
  then show ?case by (cases ys) auto
next
  case (Cons x xs)
  then show ?case by (cases ys) auto
qed

lemma shape_unique:
  assumes a: "sidecarShape pre ds nd key" and b: "sidecarShape pre' ds' nd' key"
  shows "ds' = ds \<and> nd' = nd"
proof -
  from a have k1: "key = pre @ ''snapshot-'' @ ds @ ''-'' @ nd @ ''.json''"
    and d1: "CHR ''-'' \<notin> set ds" and n1: "CHR ''-'' \<notin> set nd"
    using dash_not_digit dash_not_alnum by (auto simp: sidecarShape_def list_all_iff)
  from b have k2: "key = pre' @ ''snapshot-'' @ ds' @ ''-'' @ nd' @ ''.json''"
    and d2: "CHR ''-'' \<notin> set ds'" and n2: "CHR ''-'' \<notin> set nd'"
    using dash_not_digit dash_not_alnum by (auto simp: sidecarShape_def list_all_iff)
  have r1: "rev key = (''nosj.'' @ rev nd) @ CHR ''-'' # (rev ds @ CHR ''-'' # rev (pre @ ''snapshot''))"
    unfolding k1 by simp
  have r2: "rev key = (''nosj.'' @ rev nd') @ CHR ''-'' # (rev ds' @ CHR ''-'' # rev (pre' @ ''snapshot''))"
    unfolding k2 by simp
  have "''nosj.'' @ rev nd = ''nosj.'' @ rev nd' \<and>
        rev ds @ CHR ''-'' # rev (pre @ ''snapshot'') = rev ds' @ CHR ''-'' # rev (pre' @ ''snapshot'')"
    by (rule split_at_sep[OF trans[OF r1[symmetric] r2]]) (use n1 n2 in auto)
  then have nd: "nd = nd'" and rest: "rev ds @ CHR ''-'' # rev (pre @ ''snapshot'') = rev ds' @ CHR ''-'' # rev (pre' @ ''snapshot'')"
    by auto
  have "rev ds = rev ds' \<and> rev (pre @ ''snapshot'') = rev (pre' @ ''snapshot'')"
    by (rule split_at_sep[OF rest]) (use d1 d2 in auto)
  with nd show ?thesis by auto
qed

lemma FindStringSubmatch_complete:
  assumes "sidecarShape pre ds nd key"
  shows "FindStringSubmatch key = Some (ds, nd)"
  using assms
proof (induction pre arbitrary: key)
  case Nil
  then have m: "matchHere key = Some (ds, nd)" by (rule matchHere_complete)
  then show ?case by (cases key) (simp_all)
next
  case (Cons c pre)
  then obtain cs where key: "key = c # cs" and cs: "sidecarShape pre ds nd cs"
    by (auto simp: sidecarShape_def)
  show ?case
  proof (cases "matchHere key")
    case None
    then show ?thesis using Cons.IH[OF cs] key by simp
  next
    case (Some m)
    obtain ds' nd' where m: "m = (ds', nd')" by (cases m)
    with Some have "sidecarShape [] ds' nd' key" by (simp add: matchHere_sound)
    from shape_unique[OF Cons.prems this] have "m = (ds, nd)" using m by simp
    then show ?thesis using Some key by simp
  qed
qed

lemma FindStringSubmatch_iff:
  "FindStringSubmatch key = Some (ds, nd) \<longleftrightarrow> (\<exists>pre. sidecarShape pre ds nd key)"
  using FindStringSubmatch_sound FindStringSubmatch_complete by blast

lemma FindStringSubmatch_None_iff:
  "FindStringSubmatch key = None \<longleftrightarrow> (\<forall>pre ds nd. \<not> sidecarShape pre ds nd key)"
proof
  assume n: "FindStringSubmatch key = None"
  show "\<forall>pre ds nd. \<not> sidecarShape pre ds nd key"
  proof (intro allI notI)
    fix pre ds nd assume "sidecarShape pre ds nd key"
    then have "FindStringSubmatch key = Some (ds, nd)" by (rule FindStringSubmatch_complete)
    with n show False by simp
  qed
next
  assume a: "\<forall>pre ds nd. \<not> sidecarShape pre ds nd key"
  show "FindStringSubmatch key = None"
  proof (cases "FindStringSubmatch key")
    case None then show ?thesis .
  next
    case (Some m)
    obtain ds nd where "m = (ds, nd)" by (cases m)
    with Some a FindStringSubmatch_sound show ?thesis by blast
  qed
qed

lemma ParseInt_digits:
  assumes "ds \<noteq> []" "list_all isDigit ds"
  shows "ParseInt ds =
           (if digitsVal ds < 2 ^ 63 then Some (int (digitsVal ds)) else None)"
proof -
  from assms obtain c r where ds: "ds = c # r" and c: "isDigit c" by (cases ds) auto
  from c have "c \<noteq> CHR ''-''" "c \<noteq> CHR ''+''" by (auto simp: isDigit_def)
  then show ?thesis
    using assms unfolding ParseInt_def ds by (simp add: int64_def)
qed

lemmas classifier_eval =
  extractSlotAndNode_def isSnapshotMetadataFile_def matchHere_def ParseInt_def isDigit_def
  isAlnum_def digitsVal_def digitVal_def int64_def getSlotRange_def wrap64_def tdiv_def
  FormatInt_def showNat.simps

text \<open>The cases of \<open>handlers_test.go\<close>.\<close>

lemma handlers_test_isSnapshotMetadataFile:
  "isSnapshotMetadataFile ''snapshot-123456789-AutUwEtGwA2wXfH4VqvpoY87d6vQzLkG1V6EugKx8t96.json''"
  "isSnapshotMetadataFile ''snapshot-9876543210-AutUwEtGwA2wXfH4VqvpoY87d6vQzLkG1V6EugKx8t96.json''"
  "\<not> isSnapshotMetadataFile ''snapshot-123456789-AutUwEtGwA2wXfH4VqvpoY87d6vQzLkG1V6EugKx8t96.tar.gz''"
  "\<not> isSnapshotMetadataFile ''snapshot_123456789_AutUwEtGwA2wXfH4VqvpoY87d6vQzLkG1V6EugKx8t96.json''"
  "\<not> isSnapshotMetadataFile ''snapshot-AutUwEtGwA2wXfH4VqvpoY87d6vQzLkG1V6EugKx8t96.json''"
  "\<not> isSnapshotMetadataFile ''snapshot-123456789.json''"
  "\<not> isSnapshotMetadataFile ''metadata.json''"
  by (simp_all add: isSnapshotMetadataFile_def matchHere_def isDigit_def isAlnum_def)

lemma handlers_test_extractSlotAndNode:
  "extractSlotAndNode ''snapshot-123456789-AutUwEtGwA2wXfH4VqvpoY87d6vQzLkG1V6EugKx8t96.json''
     = (123456789, ''AutUwEtGwA2wXfH4VqvpoY87d6vQzLkG1V6EugKx8t96'')"
  "extractSlotAndNode ''snapshot-9876543210-AutUwEtGwA2wXfH4VqvpoY87d6vQzLkG1V6EugKx8t96.json''
     = (9876543210, ''AutUwEtGwA2wXfH4VqvpoY87d6vQzLkG1V6EugKx8t96'')"
  "extractSlotAndNode ''snapshot-123456789-AutUwEtGwA2wXfH4VqvpoY87d6vQzLkG1V6EugKx8t96.tar.gz''
     = (0, [])"
  "extractSlotAndNode ''snapshot_123456789_AutUwEtGwA2wXfH4VqvpoY87d6vQzLkG1V6EugKx8t96.json''
     = (0, [])"
  by (simp_all add: classifier_eval)

text \<open>
  C3, as the code has it. A key that ends in \<open>snapshot-<N>-<node>.json\<close> (the pattern is
  not anchored at the start, so anything may precede it) is a metadata candidate, and
  \<open>extractSlotAndNode\<close> returns the value of \<open>N\<close> and the node when that value is below
  \<open>2^63\<close>, and \<open>(0, "")\<close> when it is not (\<open>ParseInt\<close> fails). A key that does not end
  in such a name is no candidate and gives \<open>(0, "")\<close>.
\<close>

theorem extractSlotAndNode_by_shape:
  "(sidecarShape pre ds nd key \<longrightarrow>
      isSnapshotMetadataFile key \<and>
      extractSlotAndNode key =
        (if digitsVal ds < 2 ^ 63 then (int (digitsVal ds), nd) else (0, []))) \<and>
   ((\<forall>pre ds nd. \<not> sidecarShape pre ds nd key) \<longrightarrow>
      \<not> isSnapshotMetadataFile key \<and> extractSlotAndNode key = (0, []))"
proof (intro conjI impI)
  assume sh: "sidecarShape pre ds nd key"
  then have f: "FindStringSubmatch key = Some (ds, nd)" by (rule FindStringSubmatch_complete)
  then show "isSnapshotMetadataFile key" by (simp add: isSnapshotMetadataFile_def)
  from sh have "ds \<noteq> []" "list_all isDigit ds" by (simp_all add: sidecarShape_def)
  then show "extractSlotAndNode key =
      (if digitsVal ds < 2 ^ 63 then (int (digitsVal ds), nd) else (0, []))"
    unfolding extractSlotAndNode_def f by (simp add: ParseInt_digits)
next
  assume "\<forall>pre ds nd. \<not> sidecarShape pre ds nd key"
  then have f: "FindStringSubmatch key = None" by (rule iffD2[OF FindStringSubmatch_None_iff])
  then show "\<not> isSnapshotMetadataFile key" by (simp add: isSnapshotMetadataFile_def)
  from f show "extractSlotAndNode key = (0, [])" by (simp add: extractSlotAndNode_def)
qed

theorem extractSlotAndNode_by_shape_witness:
  "isSnapshotMetadataFile
     ''snapshot-123456789-AutUwEtGwA2wXfH4VqvpoY87d6vQzLkG1V6EugKx8t96.json'' \<and>
   extractSlotAndNode
     ''snapshot-123456789-AutUwEtGwA2wXfH4VqvpoY87d6vQzLkG1V6EugKx8t96.json'' =
     (123456789, ''AutUwEtGwA2wXfH4VqvpoY87d6vQzLkG1V6EugKx8t96'') \<and>
   \<not> isSnapshotMetadataFile ''snapshot_123456789_Node.json'' \<and>
   extractSlotAndNode ''snapshot_123456789_Node.json'' = (0, [])"
proof -
  have sh: "sidecarShape [] ''123456789'' ''AutUwEtGwA2wXfH4VqvpoY87d6vQzLkG1V6EugKx8t96''
              ''snapshot-123456789-AutUwEtGwA2wXfH4VqvpoY87d6vQzLkG1V6EugKx8t96.json''"
    by (simp add: sidecarShape_def isDigit_def isAlnum_def)
  have v: "digitsVal ''123456789'' = 123456789"
    by (simp add: digitsVal_def digitVal_def)
  have "FindStringSubmatch ''snapshot_123456789_Node.json'' = None"
    by (simp add: matchHere_def)
  then have no: "\<forall>pre ds nd. \<not> sidecarShape pre ds nd ''snapshot_123456789_Node.json''"
    by (rule iffD1[OF FindStringSubmatch_None_iff])
  show ?thesis
    using extractSlotAndNode_by_shape
            [of "[]" "''123456789''" "''AutUwEtGwA2wXfH4VqvpoY87d6vQzLkG1V6EugKx8t96''"
                "''snapshot-123456789-AutUwEtGwA2wXfH4VqvpoY87d6vQzLkG1V6EugKx8t96.json''"]
          extractSlotAndNode_by_shape [of _ _ _ "''snapshot_123456789_Node.json''"]
          sh no
    by (simp add: v)
qed

text \<open>
  The claim as it is worded fails on both sides: a digit string of 2^63 or more is of the
  shape and gives \<open>(0, "")\<close>, not its value; and a key with anything before
  \<open>snapshot-\<close> is matched all the same.
\<close>

theorem extractSlotAndNode_counterexample:
  "sidecarShape [] ''9223372036854775808'' ''a'' ''snapshot-9223372036854775808-a.json'' \<and>
   digitsVal ''9223372036854775808'' = 9223372036854775808 \<and>
   extractSlotAndNode ''snapshot-9223372036854775808-a.json'' = (0, []) \<and>
   extractSlotAndNode ''backups/snapshot-17-a.json'' = (17, ''a'')"
  by (simp add: sidecarShape_def extractSlotAndNode_def matchHere_def ParseInt_def
      isDigit_def isAlnum_def digitsVal_def digitVal_def int64_def)

section \<open>Properties of the query engine\<close>

subsection \<open>Pagination\<close>

lemma calculatePaginationBounds_exact:
  assumes p: "1 \<le> page" and s: "1 \<le> pageSize"
    and no: "(page - 1) * pageSize + pageSize < 2 ^ 63"
  shows "calculatePaginationBounds page pageSize tot =
           (if (page - 1) * pageSize \<ge> tot then (0, 0)
            else if (page - 1) * pageSize + pageSize > tot then ((page - 1) * pageSize, tot)
            else ((page - 1) * pageSize, (page - 1) * pageSize + pageSize))"
proof -
  have nn: "0 \<le> (page - 1) * pageSize" using p s by simp
  have "(page - 1) * 1 \<le> (page - 1) * pageSize"
    using p s by (intro mult_left_mono) simp_all
  then have le: "page - 1 \<le> (page - 1) * pageSize" by simp
  have w1: "wrap64 (page - 1) = page - 1"
    using p le no s by (intro wrap64_id) (simp add: int64_def)
  have w2: "wrap64 ((page - 1) * pageSize) = (page - 1) * pageSize"
    using nn no s by (intro wrap64_id) (simp add: int64_def)
  have w3: "wrap64 ((page - 1) * pageSize + pageSize) = (page - 1) * pageSize + pageSize"
    using nn no s by (intro wrap64_id) (simp add: int64_def)
  show ?thesis
    unfolding calculatePaginationBounds_def Let_def w1 w2 w3 by simp
qed

lemma paginate_exact:
  assumes p: "1 \<le> page" and s: "1 \<le> pageSize"
    and no: "(page - 1) * pageSize + pageSize < 2 ^ 63"
  shows "paginate page pageSize xs =
           Inr (take (nat pageSize) (drop (nat ((page - 1) * pageSize)) xs), int (length xs))"
proof -
  define st where "st = (page - 1) * pageSize"
  have nn: "0 \<le> st" using p s by (simp add: st_def)
  note b = calculatePaginationBounds_exact[OF p s no, of "int (length xs)", folded st_def]
  consider (past) "st \<ge> int (length xs)"
    | (partial) "st < int (length xs)" "st + pageSize > int (length xs)"
    | (full) "st < int (length xs)" "st + pageSize \<le> int (length xs)"
    by linarith
  then show ?thesis
  proof cases
    case past
    then have "drop (nat st) xs = []" by simp
    with past show ?thesis
      unfolding paginate_def Let_def b st_def[symmetric]
      by (simp add: sliceList_def)
  next
    case partial
    have "take (nat pageSize) (drop (nat st) xs) = drop (nat st) xs"
      using partial nn by (intro take_all) simp
    moreover have "take (nat (int (length xs) - st)) (drop (nat st) xs) = drop (nat st) xs"
      using partial nn by (intro take_all) simp
    ultimately show ?thesis
      using partial nn unfolding paginate_def Let_def b st_def[symmetric]
      by (simp add: sliceList_def)
  next
    case full
    then show ?thesis
      using nn s unfolding paginate_def Let_def b st_def[symmetric]
      by (simp add: sliceList_def)
  qed
qed

lemma Atoi_digit_head:
  "Atoi s = Some n \<Longrightarrow> s \<noteq> []"
  by (auto simp: Atoi_def ParseInt_def)

lemma getPaginationParams_range:
  "1 \<le> fst (getPaginationParams ps pss) \<and> 1 \<le> snd (getPaginationParams ps pss) \<and>
   snd (getPaginationParams ps pss) \<le> 100"
  by (simp add: getPaginationParams_def Let_def maxPageSize_def defaultPageSize_def
      split: option.splits)

lemma getPaginationParams_given:
  "(Atoi ps = Some p \<and> 0 < p \<longrightarrow> fst (getPaginationParams ps pss) = p) \<and>
   (Atoi pss = Some n \<and> 0 < n \<longrightarrow> snd (getPaginationParams ps pss) = min n 100)"
  by (auto simp: getPaginationParams_def Let_def maxPageSize_def defaultPageSize_def
      dest: Atoi_digit_head)

lemmas pagination_eval =
  getPaginationParams_def Atoi_def ParseInt_def isDigit_def digitsVal_def digitVal_def
  int64_def maxPageSize_def defaultPageSize_def paginate_def calculatePaginationBounds_def
  wrap64_def sliceList_def

text \<open>
  The product \<open>(page - 1) * pageSize\<close> is computed in int64. A page number near the top
  of the range makes it wrap around: to a negative start, where the slice expression
  panics, or back into the list, where a page far out of range shows the first items.
\<close>

lemma paginate_overflow_panics:
  "getPaginationParams ''9223372036854775807'' ''100'' = (9223372036854775807, 100) \<and>
   paginate 9223372036854775807 100 [0..<45] = Inl SliceBoundsPanic"
  by (simp add: pagination_eval)

lemma paginate_overflow_first_page:
  "getPaginationParams ''288230376151711745'' ''64'' = (288230376151711745, 64) \<and>
   paginate 288230376151711745 64 [0..<45] = Inr ([0..<45], 45)"
  by (simp add: pagination_eval)

text \<open>
  C2, as the code has it. \<open>page\<close> defaults to 1 and \<open>page_size\<close> to 20; a supplied positive
  \<open>page_size\<close> is clamped to 100, and a value that is not a positive number counts as
  absent. Where \<open>(page - 1) * pageSize + pageSize\<close> stays within
  int64, the page holds the items from index \<open>(page - 1) * pageSize\<close> on, at most
  \<open>pageSize\<close> of them, and the total is the length of the whole list; a start index at or
  past the total gives an empty page. Of 45 records in pages of 20, page 3 holds the last
  5, page 1 the first 20, page 10 none; the total is 45 each time.
\<close>

theorem pagination_as_coded:
  "getPaginationParams [] [] = (1, 20) \<and>
   (1 \<le> fst (getPaginationParams ps pss) \<and> 1 \<le> snd (getPaginationParams ps pss) \<and>
    snd (getPaginationParams ps pss) \<le> 100) \<and>
   (Atoi ps = Some p \<and> 0 < p \<longrightarrow> fst (getPaginationParams ps pss) = p) \<and>
   (Atoi pss = Some n \<and> 0 < n \<longrightarrow> snd (getPaginationParams ps pss) = min n 100) \<and>
   (1 \<le> page \<and> 1 \<le> pageSize \<and> (page - 1) * pageSize + pageSize < 2 ^ 63 \<longrightarrow>
      paginate page pageSize xs =
        Inr (take (nat pageSize) (drop (nat ((page - 1) * pageSize)) xs), int (length xs)) \<and>
      (int (length xs) \<le> (page - 1) * pageSize \<longrightarrow>
         paginate page pageSize xs = Inr ([], int (length xs)))) \<and>
   (length ys = 45 \<longrightarrow>
      paginate 3 20 ys = Inr (drop 40 ys, 45) \<and> length (drop 40 ys) = 5 \<and>
      paginate 1 20 ys = Inr (take 20 ys, 45) \<and> length (take 20 ys) = 20 \<and>
      paginate 10 20 ys = Inr ([], 45)) \<and>
   (Atoi ps = None \<or> (\<exists>p'. Atoi ps = Some p' \<and> p' \<le> 0) \<longrightarrow>
      fst (getPaginationParams ps pss) = 1) \<and>
   (Atoi pss = None \<or> (\<exists>n'. Atoi pss = Some n' \<and> n' \<le> 0) \<longrightarrow>
      snd (getPaginationParams ps pss) = 20)"
proof (intro conjI impI)
  show "getPaginationParams [] [] = (1, 20)"
    by (simp add: getPaginationParams_def defaultPageSize_def)
  show "1 \<le> fst (getPaginationParams ps pss)" "1 \<le> snd (getPaginationParams ps pss)"
    "snd (getPaginationParams ps pss) \<le> 100"
    using getPaginationParams_range[of ps pss] by simp_all
  show "fst (getPaginationParams ps pss) = p" if "Atoi ps = Some p \<and> 0 < p"
    using that getPaginationParams_given[of ps p pss] by simp
  show "snd (getPaginationParams ps pss) = min n 100" if "Atoi pss = Some n \<and> 0 < n"
    using that getPaginationParams_given[of ps _ pss n] by simp
next
  assume a: "1 \<le> page \<and> 1 \<le> pageSize \<and> (page - 1) * pageSize + pageSize < 2 ^ 63"
  then show e: "paginate page pageSize xs =
      Inr (take (nat pageSize) (drop (nat ((page - 1) * pageSize)) xs), int (length xs))"
    by (intro paginate_exact) simp_all
  assume "int (length xs) \<le> (page - 1) * pageSize"
  then have "drop (nat ((page - 1) * pageSize)) xs = []" by simp
  with e show "paginate page pageSize xs = Inr ([], int (length xs))" by simp
next
  assume l: "length ys = 45"
  show "paginate 3 20 ys = Inr (drop 40 ys, 45)"
    using paginate_exact[of 3 20 ys] l by simp
  show "length (drop 40 ys) = 5" using l by simp
  show "paginate 1 20 ys = Inr (take 20 ys, 45)"
    using paginate_exact[of 1 20 ys] l by simp
  show "length (take 20 ys) = 20" using l by simp
  show "paginate 10 20 ys = Inr ([], 45)"
    using paginate_exact[of 10 20 ys] l by simp
next
  assume "Atoi ps = None \<or> (\<exists>p'. Atoi ps = Some p' \<and> p' \<le> 0)"
  then show "fst (getPaginationParams ps pss) = 1"
    by (auto simp: getPaginationParams_def Let_def)
next
  assume "Atoi pss = None \<or> (\<exists>n'. Atoi pss = Some n' \<and> n' \<le> 0)"
  then show "snd (getPaginationParams ps pss) = 20"
    by (auto simp: getPaginationParams_def Let_def defaultPageSize_def)
qed

theorem pagination_as_coded_witness:
  "getPaginationParams ''2'' ''500'' = (2, 100) \<and>
   paginate 3 20 [0..<45] = Inr ([40, 41, 42, 43, 44], 45) \<and>
   paginate 10 20 [0..<45] = Inr ([], 45)"
proof -
  have a: "Atoi ''2'' = Some 2 \<and> (0::int) < 2" "Atoi ''500'' = Some 500 \<and> (0::int) < 500"
    by (simp_all add: Atoi_def ParseInt_def isDigit_def digitsVal_def digitVal_def int64_def)
  have b: "(1::int) \<le> 3 \<and> (1::int) \<le> 20 \<and> (3 - 1) * 20 + 20 < (2::int) ^ 63"
    "(1::int) \<le> 10 \<and> (1::int) \<le> 20 \<and> (10 - 1) * 20 + 20 < (2::int) ^ 63"
    "int (length [0..<45]) \<le> (10 - 1) * 20"
    by simp_all
  note t3 = pagination_as_coded
    [of "''2''" "''500''" 2 500 3 20 "[0..<45]" "[0..<45]"]
  note t10 = pagination_as_coded
    [of "''2''" "''500''" 2 500 10 20 "[0..<45]" "[0..<45]"]
  have "fst (getPaginationParams ''2'' ''500'') = 2"
    "snd (getPaginationParams ''2'' ''500'') = 100"
    using t3 a by simp_all
  then have "getPaginationParams ''2'' ''500'' = (2, 100)"
    by (simp add: prod_eq_iff)
  moreover have "paginate 3 20 [0..<45] = Inr ([40, 41, 42, 43, 44], 45)"
    using t3 b(1) by simp
  moreover have "paginate 10 20 [0..<45] = Inr ([], 45)"
    using t10 b(2,3) by simp
  ultimately show ?thesis by simp
qed

text \<open>
  The claim as it is worded has page 3 of 45 records empty. It is not: the start index
  40 is below 45, and the page holds the records 40 to 44.
\<close>

theorem pagination_counterexample:
  "getPaginationParams ''3'' ''20'' = (3, 20) \<and>
   paginate 3 20 [0..<45] = Inr ([40, 41, 42, 43, 44], 45)"
  by (simp add: pagination_eval)

subsection \<open>Filtering\<close>

lemma HasPrefix_iff: "HasPrefix s p \<longleftrightarrow> (\<exists>post. s = p @ post)"
  by (induction s p rule: HasPrefix.induct) auto

lemma Contains_iff: "Contains s sub \<longleftrightarrow> isSubstring sub s"
proof (induction s)
  case Nil
  then show ?case by (auto simp: isSubstring_def)
next
  case (Cons c cs)
  show ?case
  proof
    assume "Contains (c # cs) sub"
    then consider "HasPrefix (c # cs) sub" | "Contains cs sub" by auto
    then show "isSubstring sub (c # cs)"
    proof cases
      case 1
      then obtain post where "c # cs = sub @ post" by (auto simp: HasPrefix_iff)
      then have "c # cs = [] @ sub @ post" by simp
      then show ?thesis unfolding isSubstring_def by blast
    next
      case 2
      with Cons obtain pre post where "cs = pre @ sub @ post" by (auto simp: isSubstring_def)
      then have "c # cs = (c # pre) @ sub @ post" by simp
      then show ?thesis unfolding isSubstring_def by blast
    qed
  next
    assume "isSubstring sub (c # cs)"
    then obtain pre post where e: "c # cs = pre @ sub @ post" by (auto simp: isSubstring_def)
    show "Contains (c # cs) sub"
    proof (cases pre)
      case Nil
      with e have "HasPrefix (c # cs) sub" by (auto simp: HasPrefix_iff)
      then show ?thesis by simp
    next
      case (Cons d pre')
      with e have "cs = pre' @ sub @ post" by simp
      then have "isSubstring sub cs" unfolding isSubstring_def by blast
      with Cons.IH show ?thesis by simp
    qed
  qed
qed

lemma top_bit: "\<not> digit7 c \<longleftrightarrow> of_char c < (128::nat)"
  by (cases c) (simp add: of_char_def)

lemma isASCII_iff: "isASCII s \<longleftrightarrow> (\<forall>c \<in> set s. of_char c < (128::nat))"
  by (simp add: isASCII_def list_all_iff top_bit)

lemma ToLower_ASCII: "isASCII s \<Longrightarrow> ToLower u s = map lowerASCII s"
  by (simp add: ToLower_def)

lemma table_eq_iff:
  fixes U L :: "'a list"
  assumes "distinct U" "distinct L" "length U = length L" "set U \<inter> set L = {}"
  shows "(case map_of (zip U L) c of Some l \<Rightarrow> l | None \<Rightarrow> c) =
         (case map_of (zip U L) d of Some l \<Rightarrow> l | None \<Rightarrow> d) \<longleftrightarrow>
         c = d \<or> (c, d) \<in> set (zip U L) \<or> (d, c) \<in> set (zip U L)"
proof -
  have keys: "map fst (zip U L) = U" using assms(3) by simp
  have some: "map_of (zip U L) x = Some y \<longleftrightarrow> (x, y) \<in> set (zip U L)" for x y
    using assms(1) keys by (simp add: map_of_eq_Some_iff)
  have none: "map_of (zip U L) x = None \<longleftrightarrow> x \<notin> set U" for x
    using keys by (metis map_of_eq_None_iff set_map)
  have mem: "x \<in> set U \<and> y \<in> set L" if "(x, y) \<in> set (zip U L)" for x y
    using that by (auto dest: set_zip_leftD set_zip_rightD)
  have inj: "x = x'" if "(x, y) \<in> set (zip U L)" "(x', y) \<in> set (zip U L)" for x x' y
  proof -
    from that obtain i j where i: "U ! i = x" "L ! i = y" "i < length L"
      and j: "U ! j = x'" "L ! j = y" "j < length L"
      by (auto simp: in_set_zip)
    from i j have "L ! i = L ! j" by simp
    with assms(2) i(3) j(3) have "i = j" by (simp add: nth_eq_iff_index_eq)
    with i j show ?thesis by simp
  qed
  show ?thesis
  proof (cases "map_of (zip U L) c")
    case None
    note cn = this
    then have c: "c \<notin> set U" by (simp add: none)
    with mem have cz: "(c, y) \<notin> set (zip U L)" for y by blast
    show ?thesis
    proof (cases "map_of (zip U L) d")
      case None
      then have "d \<notin> set U" by (simp add: none)
      with mem have "(d, y) \<notin> set (zip U L)" for y by blast
      with cz show ?thesis by (simp add: cn None)
    next
      case (Some l)
      then have dl: "(d, l) \<in> set (zip U L)" by (simp add: some)
      with mem c have "c \<noteq> d" by blast
      moreover have "(d, c) \<in> set (zip U L) \<longleftrightarrow> l = c"
        using some[of d c] Some by auto
      ultimately show ?thesis using cz by (auto simp: cn Some)
    qed
  next
    case (Some l)
    note cs = this
    then have cl: "(c, l) \<in> set (zip U L)" by (simp add: some)
    with mem have cU: "c \<in> set U" by blast
    show ?thesis
    proof (cases "map_of (zip U L) d")
      case None
      then have d: "d \<notin> set U" by (simp add: none)
      with mem have dz: "(d, y) \<notin> set (zip U L)" for y by blast
      from d cU have "c \<noteq> d" by blast
      moreover have "(c, d) \<in> set (zip U L) \<longleftrightarrow> l = d"
        using some[of c d] cs by auto
      ultimately show ?thesis using dz by (auto simp: cs None)
    next
      case (Some l')
      then have dl: "(d, l') \<in> set (zip U L)" by (simp add: some)
      with mem have dU: "d \<in> set U" by blast
      from mem assms(4) cU have "(d, c) \<notin> set (zip U L)" by blast
      moreover from mem assms(4) dU have "(c, d) \<notin> set (zip U L)" by blast
      moreover have "l = l' \<longleftrightarrow> c = d"
      proof
        assume "l = l'"
        with cl dl show "c = d" by (auto intro: inj)
      next
        assume "c = d"
        with cs Some show "l = l'" by simp
      qed
      ultimately show ?thesis by (simp add: cs Some)
    qed
  qed
qed

lemma lowerASCII_eq_iff: "lowerASCII c = lowerASCII d \<longleftrightarrow> sameLetter c d"
  unfolding lowerASCII_def sameLetter_def
  by (rule table_eq_iff) simp_all

lemma map_lowerASCII_eq_iff:
  "map lowerASCII mid = map lowerASCII term \<longleftrightarrow> list_all2 sameLetter mid term"
proof -
  have "map lowerASCII mid = map lowerASCII term \<longleftrightarrow>
        list_all2 (=) (map lowerASCII mid) (map lowerASCII term)"
    by (simp add: list.rel_eq)
  also have "\<dots> \<longleftrightarrow> list_all2 (\<lambda>c d. lowerASCII c = lowerASCII d) mid term"
    by (simp add: list_all2_map1 list_all2_map2)
  finally show ?thesis by (simp add: lowerASCII_eq_iff)
qed

lemma Contains_lowerASCII:
  "Contains (map lowerASCII field) (map lowerASCII term) \<longleftrightarrow> occursIgnoringCase term field"
proof
  assume "Contains (map lowerASCII field) (map lowerASCII term)"
  then obtain pre post where "map lowerASCII field = pre @ map lowerASCII term @ post"
    by (auto simp: Contains_iff isSubstring_def)
  then have "\<exists>us ws. field = us @ ws \<and> pre = map lowerASCII us \<and>
      map lowerASCII term @ post = map lowerASCII ws"
    by (simp only: map_eq_append_conv)
  then obtain us ws where u: "field = us @ ws" "map lowerASCII ws = map lowerASCII term @ post"
    by auto
  from u(2) have "\<exists>mid vs. ws = mid @ vs \<and> map lowerASCII term = map lowerASCII mid \<and>
      post = map lowerASCII vs"
    by (simp only: map_eq_append_conv)
  then obtain mid vs where "ws = mid @ vs" "map lowerASCII mid = map lowerASCII term"
    by auto
  with u(1) have "field = us @ mid @ vs" "map lowerASCII mid = map lowerASCII term"
    by simp_all
  then show "occursIgnoringCase term field"
    unfolding occursIgnoringCase_def map_lowerASCII_eq_iff by blast
next
  assume "occursIgnoringCase term field"
  then obtain us mid vs where f: "field = us @ mid @ vs"
    and "map lowerASCII mid = map lowerASCII term"
    unfolding occursIgnoringCase_def map_lowerASCII_eq_iff by blast
  then have "map lowerASCII field =
      map lowerASCII us @ map lowerASCII term @ map lowerASCII vs"
    by simp
  then show "Contains (map lowerASCII field) (map lowerASCII term)"
    unfolding Contains_iff isSubstring_def by blast
qed

lemma fieldMatches_code:
  "Contains (ToLower u field) (ToLower u term) \<longleftrightarrow> fieldMatches u term field"
proof (cases "isASCII term \<and> isASCII field")
  case True
  then show ?thesis by (simp add: fieldMatches_def ToLower_ASCII Contains_lowerASCII)
next
  case False
  then have "fieldMatches u term field \<longleftrightarrow>
      isSubstring (ToLower u term) (ToLower u field)"
    unfolding fieldMatches_def by (rule if_not_P)
  then show ?thesis by (simp add: Contains_iff)
qed

lemma if_False_conj: "(if c then False else r) \<longleftrightarrow> \<not> c \<and> r"
  by simp

lemma not_conj_imp: "(\<not> (P \<and> Q)) = (P \<longrightarrow> \<not> Q)"
  by blast

lemma searchMatches_code:
  "(t \<noteq> [] \<longrightarrow> searchMatches u t m) \<longleftrightarrow>
   (if t \<noteq> [] then
      (let searchTerm = ToLower u t
       in if \<not> Contains (ToLower u (SolanaVersion m)) searchTerm \<and>
             \<not> Contains (ToLower u (Status m)) searchTerm \<and>
             \<not> Contains (ToLower u (UploadedBy m)) searchTerm \<and>
             \<not> Contains (ToLower u (Node m)) searchTerm \<and>
             \<not> Contains (ToLower u (Hash m)) searchTerm \<and>
             \<not> Contains (ToLower u (FileName m)) searchTerm
          then False
          else True)
    else True)"
  by (simp add: searchMatches_def fieldMatches_code Let_def)

lemma matchesFilter_iff: "matchesFilter u m f \<longleftrightarrow> passesSetFields u m f"
  unfolding matchesFilter_def passesSetFields_def searchMatches_code if_False_conj not_conj_imp
  by (simp add: not_less)

lemma matchesFilter_empty: "matchesFilter u m emptyFilter"
  by (simp add: matchesFilter_def emptyFilter_def IsZero_def zeroTime_def)

text \<open>
  Beyond ASCII the answer is that of the library's case mapping: a record of status
  \<open>C3 A9\<close> (e acute in UTF-8) is found by the term \<open>C3 89\<close> (E acute) as soon as the mapping
  takes the second to the first and keeps the first.
\<close>

lemma matchesFilter_beyond_ASCII:
  assumes "u [CHR 0xC3, CHR 0x89] = [CHR 0xC3, CHR 0xA9]"
    "u [CHR 0xC3, CHR 0xA9] = [CHR 0xC3, CHR 0xA9]"
  shows "matchesFilter u (emptyMetadata\<lparr>Status := [CHR 0xC3, CHR 0xA9]\<rparr>)
           (emptyFilter\<lparr>fSearchTerm := [CHR 0xC3, CHR 0x89]\<rparr>)"
  using assms
  by (simp add: matchesFilter_def emptyFilter_def emptyMetadata_def IsZero_def zeroTime_def
      ToLower_def isASCII_def)

lemma collectMetadata_filter:
  "collectMetadata u s3 f objs =
     filter (\<lambda>m. matchesFilter u m f) (collectMetadata u s3 emptyFilter objs)"
  by (induction objs)
     (auto simp: matchesFilter_empty Let_def split: fetched.splits sidecar.splits)

text \<open>
  C5, as the code has it. A record is kept exactly when it passes every filter field that
  is set: a non-empty string field by equality, \<open>minSlot\<close> and \<open>maxSlot\<close> as inclusive
  bounds that are ignored unless positive, \<open>startTime\<close> and \<open>endTime\<close> as inclusive bounds
  that are ignored when zero, and the search term when it matches one of version,
  status, uploader, node, hash and file name. A term and a field of ASCII bytes match
  when a stretch of the field is the term up to the case of its letters; with other
  bytes in either, they match when the term, lower-cased by Go, is a substring of the
  field, lower-cased by Go, whatever the case tables of the library hold. The records a
  query collects are the records of the unfiltered query that match; filtering twice is
  filtering once; the empty filter keeps every record.
\<close>

theorem matchesFilter_conjunctive:
  "(matchesFilter unicodeLower m f \<longleftrightarrow> passesSetFields unicodeLower m f) \<and>
   collectMetadata unicodeLower s3 f objs =
     filter (\<lambda>m. matchesFilter unicodeLower m f)
       (collectMetadata unicodeLower s3 emptyFilter objs) \<and>
   filter (\<lambda>m. matchesFilter unicodeLower m f) (filter (\<lambda>m. matchesFilter unicodeLower m f) ms) =
     filter (\<lambda>m. matchesFilter unicodeLower m f) ms \<and>
   filter (\<lambda>m. matchesFilter unicodeLower m emptyFilter) ms = ms"
  using matchesFilter_iff[of unicodeLower m f] collectMetadata_filter[of unicodeLower s3 f objs]
  by (simp add: matchesFilter_empty)

theorem matchesFilter_conjunctive_witness:
  "passesSetFields keepUnicode mB okFilter \<and> \<not> passesSetFields keepUnicode mA okFilter \<and>
   filter (\<lambda>m. matchesFilter keepUnicode m okFilter) [mA, mB, mC] = [mB]"
proof -
  have l: "ToLower keepUnicode ''SNAP'' = ''snap''"
    "ToLower keepUnicode ''snapshot-4-b.json'' = ''snapshot-4-b.json''"
    by (simp_all add: ToLower_def isASCII_def lowerASCII_def)
  have b: "matchesFilter keepUnicode mB okFilter"
    by (simp add: matchesFilter_def okFilter_def emptyFilter_def mB_def emptyMetadata_def
        IsZero_def zeroTime_def l)
  have a: "\<not> matchesFilter keepUnicode mA okFilter"
    by (simp add: matchesFilter_def okFilter_def emptyFilter_def mA_def emptyMetadata_def)
  have c: "\<not> matchesFilter keepUnicode mC okFilter"
    by (simp add: matchesFilter_def okFilter_def emptyFilter_def mC_def emptyMetadata_def)
  show ?thesis
    using matchesFilter_conjunctive[of keepUnicode mB okFilter]
      matchesFilter_conjunctive[of keepUnicode mA okFilter] a b c
    by simp
qed

lemma matchesFilter_negative_bound: "matchesFilter u mB (emptyFilter\<lparr>fMaxSlot := - 1\<rparr>)"
  by (simp add: matchesFilter_def emptyFilter_def mB_def emptyMetadata_def IsZero_def
      zeroTime_def)

text \<open>
  The claim as it is worded has a slot bound ignored when it is zero. A negative bound is
  ignored as well: the query \<open>maxSlot=-1\<close> keeps a record of slot 4. (The query has no
  search term, so that the case mapping plays no part: \<open>matchesFilter_negative_bound\<close>.)
\<close>

theorem matchesFilter_counterexample:
  "ParseInt ''-1'' = Some (- 1) \<and>
   fMaxSlot (emptyFilter\<lparr>fMaxSlot := - 1\<rparr>) \<noteq> 0 \<and>
   \<not> Slot mB \<le> fMaxSlot (emptyFilter\<lparr>fMaxSlot := - 1\<rparr>) \<and>
   matchesFilter keepUnicode mB (emptyFilter\<lparr>fMaxSlot := - 1\<rparr>)"
  by (simp add: ParseInt_def isDigit_def digitsVal_def digitVal_def int64_def
      matchesFilter_def emptyFilter_def mB_def emptyMetadata_def IsZero_def zeroTime_def)

subsection \<open>Sorting\<close>

lemma mset_insertionStep: "mset (insertionStep lt x rs) = add_mset x (mset rs)"
  by (induction rs) auto

lemma mset_insertion_fold:
  "mset (foldl (\<lambda>pre x. insertionStep lt x pre) acc xs) = mset acc + mset xs"
  by (induction xs arbitrary: acc) (auto simp: mset_insertionStep)

lemma mset_sortSlice: "mset (sortSlice lt xs) = mset xs"
  by (simp add: sortSlice_def mset_insertion_fold)

lemma set_sortSlice: "set (sortSlice lt xs) = set xs"
  using mset_sortSlice[of lt xs] by (metis set_mset_mset)

lemma insertionStep_sorted:
  assumes asym: "\<And>a b. a \<in> S \<Longrightarrow> b \<in> S \<Longrightarrow> lt a b \<Longrightarrow> \<not> lt b a"
    and trans: "\<And>a b c. a \<in> S \<Longrightarrow> b \<in> S \<Longrightarrow> c \<in> S \<Longrightarrow> \<not> lt b a \<Longrightarrow> \<not> lt c b \<Longrightarrow> \<not> lt c a"
    and x: "x \<in> S" and rs: "set rs \<subseteq> S"
    and sorted: "sorted_wrt (\<lambda>a b. \<not> lt a b) rs"
  shows "sorted_wrt (\<lambda>a b. \<not> lt a b) (insertionStep lt x rs)"
  using rs sorted
proof (induction rs)
  case Nil
  then show ?case by simp
next
  case (Cons r rs)
  then have r: "r \<in> S" and rsS: "set rs \<subseteq> S" and srt: "sorted_wrt (\<lambda>a b. \<not> lt a b) rs"
    and rle: "\<And>e. e \<in> set rs \<Longrightarrow> \<not> lt r e"
    by auto
  show ?case
  proof (cases "lt x r")
    case True
    have "\<not> lt r e" if "e \<in> set (insertionStep lt x rs)" for e
    proof -
      from that have "e \<in># mset (insertionStep lt x rs)" by simp
      then have "e = x \<or> e \<in> set rs" by (simp add: mset_insertionStep)
      then show ?thesis using asym[OF x r True] rle by auto
    qed
    then show ?thesis using True Cons.IH[OF rsS srt] by simp
  next
    case False
    have "\<not> lt x e" if "e \<in> set rs" for e
      using trans[of e r x] that rsS r x rle[OF that] False by auto
    then show ?thesis using False Cons.prems(2) by auto
  qed
qed

lemma insertion_fold_sorted:
  assumes asym: "\<And>a b. a \<in> S \<Longrightarrow> b \<in> S \<Longrightarrow> lt a b \<Longrightarrow> \<not> lt b a"
    and trans: "\<And>a b c. a \<in> S \<Longrightarrow> b \<in> S \<Longrightarrow> c \<in> S \<Longrightarrow> \<not> lt b a \<Longrightarrow> \<not> lt c b \<Longrightarrow> \<not> lt c a"
    and "set xs \<subseteq> S" "set acc \<subseteq> S" "sorted_wrt (\<lambda>a b. \<not> lt a b) acc"
  shows "sorted_wrt (\<lambda>a b. \<not> lt a b) (foldl (\<lambda>pre x. insertionStep lt x pre) acc xs)"
  using assms(3-)
proof (induction xs arbitrary: acc)
  case Nil
  then show ?case by simp
next
  case (Cons x xs)
  have s: "sorted_wrt (\<lambda>a b. \<not> lt a b) (insertionStep lt x acc)"
    using Cons.prems by (intro insertionStep_sorted[OF asym trans, of S]) auto
  have "set (insertionStep lt x acc) = insert x (set acc)"
    using mset_insertionStep[of lt x acc] by (metis set_mset_add_mset_insert set_mset_mset)
  then have "set (insertionStep lt x acc) \<subseteq> S" using Cons.prems by auto
  with Cons.IH[OF _ _ s] Cons.prems show ?case by simp
qed

lemma sortSlice_sorted:
  assumes asym: "\<And>a b. a \<in> set xs \<Longrightarrow> b \<in> set xs \<Longrightarrow> lt a b \<Longrightarrow> \<not> lt b a"
    and trans: "\<And>a b c. a \<in> set xs \<Longrightarrow> b \<in> set xs \<Longrightarrow> c \<in> set xs \<Longrightarrow>
                  \<not> lt b a \<Longrightarrow> \<not> lt c b \<Longrightarrow> \<not> lt c a"
  shows "sorted_wrt (\<lambda>a b. \<not> lt b a) (sortSlice lt xs)"
proof -
  have "sorted_wrt (\<lambda>a b. \<not> lt a b) (foldl (\<lambda>pre x. insertionStep lt x pre) [] xs)"
    by (rule insertion_fold_sorted[OF asym trans, of "set xs"]) auto
  then show ?thesis by (simp add: sortSlice_def sorted_wrt_rev)
qed

lemma metadataLess_nonzero:
  "\<not> IsZero (Timestamp a) \<Longrightarrow> \<not> IsZero (Timestamp b) \<Longrightarrow>
   metadataLess a b \<longleftrightarrow> After (Timestamp a) (Timestamp b)"
  by (simp add: metadataLess_def)

lemma metadataLess_zero:
  "IsZero (Timestamp a) \<or> IsZero (Timestamp b) \<Longrightarrow> metadataLess a b \<longleftrightarrow> Slot a > Slot b"
  by (auto simp: metadataLess_def)

lemma sorted_by_timestamp:
  assumes "\<forall>m \<in> set ms. \<not> IsZero (Timestamp m)"
  shows "sorted_wrt (\<lambda>x y. \<not> After (Timestamp y) (Timestamp x)) (sortSlice metadataLess ms)"
proof -
  have s: "sorted_wrt (\<lambda>a b. \<not> metadataLess b a) (sortSlice metadataLess ms)"
  proof (rule sortSlice_sorted)
    fix a b assume "a \<in> set ms" "b \<in> set ms" "metadataLess a b"
    with assms show "\<not> metadataLess b a" by (auto simp: metadataLess_nonzero After_def)
  next
    fix a b c assume "a \<in> set ms" "b \<in> set ms" "c \<in> set ms"
      "\<not> metadataLess b a" "\<not> metadataLess c b"
    with assms show "\<not> metadataLess c a" by (auto simp: metadataLess_nonzero After_def)
  qed
  have "\<not> After (Timestamp y) (Timestamp x)"
    if "x \<in> set (sortSlice metadataLess ms)" "y \<in> set (sortSlice metadataLess ms)"
       "\<not> metadataLess y x" for x y
    using that assms by (auto simp: set_sortSlice metadataLess_nonzero)
  then show ?thesis by (rule sorted_wrt_mono_rel[OF _ s])
qed

lemma sorted_by_slot:
  assumes "\<forall>m \<in> set ms. IsZero (Timestamp m)"
  shows "sorted_wrt (\<lambda>x y. Slot y \<le> Slot x) (sortSlice metadataLess ms)"
proof -
  have s: "sorted_wrt (\<lambda>a b. \<not> metadataLess b a) (sortSlice metadataLess ms)"
  proof (rule sortSlice_sorted)
    fix a b assume "a \<in> set ms" "b \<in> set ms" "metadataLess a b"
    with assms show "\<not> metadataLess b a" by (auto simp: metadataLess_zero)
  next
    fix a b c assume "a \<in> set ms" "b \<in> set ms" "c \<in> set ms"
      "\<not> metadataLess b a" "\<not> metadataLess c b"
    with assms show "\<not> metadataLess c a" by (auto simp: metadataLess_zero)
  qed
  have "Slot y \<le> Slot x"
    if "x \<in> set (sortSlice metadataLess ms)" "y \<in> set (sortSlice metadataLess ms)"
       "\<not> metadataLess y x" for x y
    using that assms by (auto simp: set_sortSlice metadataLess_zero)
  then show ?thesis by (rule sorted_wrt_mono_rel[OF _ s])
qed

lemma sorted_permutation_by_timestamp:
  assumes "\<forall>m \<in> set ms. \<not> IsZero (Timestamp m)" "mset ys = mset ms"
    "sorted_wrt (\<lambda>a b. \<not> metadataLess b a) ys"
  shows "sorted_wrt (\<lambda>x y. \<not> After (Timestamp y) (Timestamp x)) ys"
proof -
  from assms(2) have "set ys = set ms" by (rule mset_eq_setD)
  with assms(1) have "\<not> After (Timestamp y) (Timestamp x)"
    if "x \<in> set ys" "y \<in> set ys" "\<not> metadataLess y x" for x y
    using that by (auto simp: metadataLess_nonzero)
  then show ?thesis by (rule sorted_wrt_mono_rel[OF _ assms(3)])
qed

text \<open>
  The two lemmas \<open>sorted_by_timestamp\<close> and \<open>sorted_by_slot\<close> do not depend on the
  sorting algorithm: as \<open>sorted_permutation_by_timestamp\<close> shows for the first, they hold
  of any permutation in which no record is before one that the comparator puts first.
\<close>

lemma mixedBucket_keys:
  "isSnapshotMetadataFile ''snapshot-30-a.json''"
  "extractSlotAndNode ''snapshot-30-a.json'' = (30, ''a'')"
  "isSnapshotMetadataFile ''snapshot-4-b.json''"
  "extractSlotAndNode ''snapshot-4-b.json'' = (4, ''b'')"
  "isSnapshotMetadataFile ''snapshot-4-c.json''"
  "extractSlotAndNode ''snapshot-4-c.json'' = (4, ''c'')"
  "getSlotRange 30 = ''< 1M''" "getSlotRange 4 = ''< 1M''"
  by (simp_all add: classifier_eval)

lemma mixedBucket_records:
  "metadataFromGeneric ''snapshot-30-a.json'' 30
     [(''status'', JNumber 1), (''timestamp'', JNumber 10)] = mA"
  "metadataFromSimple ''snapshot-4-b.json'' 20
     \<lparr>sSolanaVersion = ''1.18.0'', sStatus = ''ok'', sUploadedBy = ''ci''\<rparr> = mB"
  "metadataFromGeneric ''snapshot-4-c.json'' 30
     [(''status'', JNumber 1), (''timestamp'', JNumber 20)] = mC"
  by (simp_all add: metadataFromGeneric_def metadataFromSimple_def mixedBucket_keys
      jstring_def jnumber_def mA_def mB_def mC_def emptyMetadata_def)

lemma mixedBucket_collect:
  "collectMetadata u mixedBucket emptyFilter
     [object ''snapshot-30-a.json'', object ''snapshot-4-b.json'',
      object ''snapshot-4-c.json''] = [mA, mB, mC]"
  by (simp add: mixedBucket_def object_def mixedBucket_records matchesFilter_empty)

lemma mixedBucket_times:
  "\<not> IsZero (Unix 10)" "\<not> IsZero (Unix 20)" "IsZero zeroTime" "After (Unix 20) (Unix 10)"
  "\<not> After (Unix 10) (Unix 20)"
  by (simp_all add: IsZero_def Unix_def After_def wrap64_def zeroTime_def)

lemma mixedBucket_fields:
  "Timestamp mA = Unix 10" "Timestamp mB = zeroTime" "Timestamp mC = Unix 20"
  "Slot mA = 30" "Slot mB = 4" "Slot mC = 4"
  by (simp_all add: mA_def mB_def mC_def emptyMetadata_def)

lemma mixedBucket_sorted: "sortSlice metadataLess [mA, mB, mC] = [mA, mB, mC]"
  by (simp add: sortSlice_def metadataLess_def mixedBucket_fields mixedBucket_times)

lemma mixedBucket_response:
  "ListMetadata u mixedBucket emptyFilter [] [] = RespondWithItems [mA, mB, mC] 3"
proof -
  have o: "ListObjects mixedBucket =
      Some [object ''snapshot-30-a.json'', object ''snapshot-4-b.json'',
            object ''snapshot-4-c.json'']"
    by (simp add: mixedBucket_def)
  have f: "filter (\<lambda>obj. isSnapshotMetadataFile (Key obj))
      [object ''snapshot-30-a.json'', object ''snapshot-4-b.json'',
       object ''snapshot-4-c.json'']
      = [object ''snapshot-30-a.json'', object ''snapshot-4-b.json'',
         object ''snapshot-4-c.json'']"
    by (simp add: object_def mixedBucket_keys)
  have g: "getPaginationParams [] [] = (1, 20)"
    by (simp add: getPaginationParams_def defaultPageSize_def)
  have p: "paginate 1 20 [mA, mB, mC] = Inr ([mA, mB, mC], 3)"
    by (simp add: paginate_def calculatePaginationBounds_def wrap64_def sliceList_def)
  show ?thesis
    unfolding ListMetadata_def g o prod.case option.case Let_def f mixedBucket_collect
      mixedBucket_sorted p
    by simp
qed

text \<open>
  C4, as the code has it. The comparator orders a pair by slot, larger first, when one
  of the two timestamps is zero, and by timestamp, later first, when neither is. The
  sorted list holds the records that were sorted. When no record has a zero timestamp
  it is in descending order of timestamp, and when every record has one it is in
  descending order of slot.
\<close>

theorem metadata_order:
  "(IsZero (Timestamp a) \<or> IsZero (Timestamp b) \<longrightarrow>
      (metadataLess a b \<longleftrightarrow> Slot a > Slot b)) \<and>
   (\<not> IsZero (Timestamp a) \<and> \<not> IsZero (Timestamp b) \<longrightarrow>
      (metadataLess a b \<longleftrightarrow> After (Timestamp a) (Timestamp b))) \<and>
   mset (sortSlice metadataLess ms) = mset ms \<and>
   ((\<forall>m \<in> set ms. \<not> IsZero (Timestamp m)) \<longrightarrow>
      sorted_wrt (\<lambda>x y. \<not> After (Timestamp y) (Timestamp x)) (sortSlice metadataLess ms)) \<and>
   ((\<forall>m \<in> set ms. IsZero (Timestamp m)) \<longrightarrow>
      sorted_wrt (\<lambda>x y. Slot y \<le> Slot x) (sortSlice metadataLess ms))"
  using metadataLess_zero[of a b] metadataLess_nonzero[of a b] mset_sortSlice[of metadataLess ms]
    sorted_by_timestamp[of ms] sorted_by_slot[of ms]
  by blast

theorem metadata_order_witness:
  "sortSlice metadataLess [mA, mC] = [mC, mA] \<and>
   sorted_wrt (\<lambda>x y. \<not> After (Timestamp y) (Timestamp x)) (sortSlice metadataLess [mA, mC]) \<and>
   sortSlice metadataLess [mB, mD] = [mD, mB] \<and>
   sorted_wrt (\<lambda>x y. Slot y \<le> Slot x) (sortSlice metadataLess [mB, mD]) \<and>
   (metadataLess mA mB \<longleftrightarrow> Slot mA > Slot mB) \<and>
   (metadataLess mC mA \<longleftrightarrow> After (Timestamp mC) (Timestamp mA))"
proof -
  have s: "sortSlice metadataLess [mA, mC] = [mC, mA]"
    by (simp add: sortSlice_def metadataLess_def mixedBucket_fields mixedBucket_times)
  have n: "\<forall>m \<in> set [mA, mC]. \<not> IsZero (Timestamp m)"
    by (simp add: mixedBucket_fields mixedBucket_times)
  have d: "Timestamp mD = zeroTime" "Slot mD = 9"
    by (simp_all add: mD_def emptyMetadata_def)
  have s': "sortSlice metadataLess [mB, mD] = [mD, mB]"
    by (simp add: sortSlice_def metadataLess_def mixedBucket_fields mixedBucket_times d)
  have z: "\<forall>m \<in> set [mB, mD]. IsZero (Timestamp m)"
    by (simp add: mixedBucket_fields mixedBucket_times d)
  have p: "IsZero (Timestamp mA) \<or> IsZero (Timestamp mB)"
    "\<not> IsZero (Timestamp mC) \<and> \<not> IsZero (Timestamp mA)"
    by (simp_all add: mixedBucket_fields mixedBucket_times)
  show ?thesis
    using metadata_order[of mA mB "[mA, mC]"] metadata_order[of mC mA "[mB, mD]"] s s' n z p
    by blast
qed

text \<open>
  The claim as it is worded orders every two records with a timestamp, later first. In
  a list that also holds records without one it does not: \<open>mixedBucket\<close> answers with
  the record of timestamp 10 before the record of timestamp 20. (The request has no
  search term, so that the case mapping plays no part: \<open>mixedBucket_response\<close> holds for
  every value of it.)
\<close>

theorem metadata_order_counterexample:
  "ListMetadata keepUnicode mixedBucket emptyFilter [] [] = RespondWithItems [mA, mB, mC] 3 \<and>
   \<not> IsZero (Timestamp mA) \<and> \<not> IsZero (Timestamp mC) \<and>
   After (Timestamp mC) (Timestamp mA)"
  by (simp add: mixedBucket_response mixedBucket_fields mixedBucket_times)

section \<open>Properties of the facet indexer\<close>

subsection \<open>The order of the version facet\<close>

lemmas version_eval =
  versionLess_def bothAtoi_def Atoi_def ParseInt_def isDigit_def digitsVal_def digitVal_def
  int64_def Let_def

lemma split_examples:
  "Split ''1.10.0'' CHR ''.'' = [''1'', ''10'', ''0'']"
  "Split ''1.9.0'' CHR ''.'' = [''1'', ''9'', ''0'']"
  "Split ''1.2.0'' CHR ''.'' = [''1'', ''2'', ''0'']"
  "Split ''v2.9.0'' CHR ''.'' = [''v2'', ''9'', ''0'']"
  "Split ''v1.10.0'' CHR ''.'' = [''v1'', ''10'', ''0'']"
  "Split ''x.4.5'' CHR ''.'' = [''x'', ''4'', ''5'']"
  by simp_all

lemma versionLess_examples:
  "versionLess ''1.2.0'' ''1.9.0''" "versionLess ''1.9.0'' ''1.10.0''"
  "versionLess ''1.2.0'' ''1.10.0''"
  "\<not> versionLess ''1.9.0'' ''1.2.0''" "\<not> versionLess ''1.10.0'' ''1.9.0''"
  "\<not> versionLess ''1.10.0'' ''1.2.0''"
  by (simp_all add: version_eval)

lemma three_perms:
  assumes "mset vs = mset [a, b, c]"
  shows "vs \<in> {[a, b, c], [a, c, b], [b, a, c], [b, c, a], [c, a, b], [c, b, a]}"
proof -
  from assms have "length vs = 3" using mset_eq_length by fastforce
  then obtain x y z where vs: "vs = [x, y, z]"
    by (auto simp: length_Suc_conv numeral_3_eq_3)
  with assms have "{#x, y, z#} = {#a, b, c#}" by simp
  then show ?thesis unfolding vs by (auto simp: add_eq_conv_diff)
qed

lemma sort_example:
  assumes "mset vs = mset [''1.10.0'', ''1.9.0'', ''1.2.0'']"
  shows "sortSlice versionLess vs = [''1.2.0'', ''1.9.0'', ''1.10.0'']"
  using three_perms[OF assms]
  by (auto simp: sortSlice_def versionLess_examples)

lemma sorted_permutation_versions:
  assumes "mset ys = mset [''1.10.0'', ''1.9.0'', ''1.2.0'']"
    "sorted_wrt (\<lambda>a b. \<not> versionLess b a) ys"
  shows "ys = [''1.2.0'', ''1.9.0'', ''1.10.0'']"
  using three_perms[OF assms(1)] assms(2)
  by (auto simp: versionLess_examples)

lemma sortStrings_sort: "sortStrings xs = sort xs"
proof -
  have "sorted_wrt (\<lambda>a b. \<not> b < a) (sortStrings xs)"
    unfolding sortStrings_def by (rule sortSlice_sorted) auto
  then have "sorted (sortStrings xs)"
    by (simp add: sorted_wrt_iff_nth_less sorted_iff_nth_mono_less not_less)
  moreover have "mset (sortStrings xs) = mset xs"
    by (simp add: sortStrings_def mset_sortSlice)
  ultimately show ?thesis by (metis properties_for_sort)
qed

lemma versionLess_numeric:
  assumes "Split vi CHR ''.'' = [a1, a2, a3]" "Split vj CHR ''.'' = [b1, b2, b3]"
    "Atoi a1 = Some x1" "Atoi a2 = Some x2" "Atoi a3 = Some x3"
    "Atoi b1 = Some y1" "Atoi b2 = Some y2" "Atoi b3 = Some y3"
  shows "versionLess vi vj \<longleftrightarrow> x1 < y1 \<or> (x1 = y1 \<and> (x2 < y2 \<or> (x2 = y2 \<and> x3 < y3)))"
  using assms by (auto simp: versionLess_def bothAtoi_def Let_def)

lemma versionLess_skip:
  assumes "bothAtoi (Split vi CHR ''.'') (Split vj CHR ''.'') 0 = None"
    "bothAtoi (Split vi CHR ''.'') (Split vj CHR ''.'') 1 = Some (x, y)" "x \<noteq> y"
  shows "versionLess vi vj \<longleftrightarrow> x < y"
  using assms by (simp add: versionLess_def Let_def)

lemma versionLess_fallback:
  assumes "bothAtoi (Split vi CHR ''.'') (Split vj CHR ''.'') 0 = None"
    "bothAtoi (Split vi CHR ''.'') (Split vj CHR ''.'') 1 = None"
    "bothAtoi (Split vi CHR ''.'') (Split vj CHR ''.'') 2 = None"
  shows "versionLess vi vj \<longleftrightarrow> vi < vj"
  using assms by (simp add: versionLess_def Let_def)

lemma versionLess_no_order:
  "versionLess ''1.5.0'' ''2.4.0''" "versionLess ''2.4.0'' ''x.4.5''"
  "versionLess ''x.4.5'' ''1.5.0''"
  "\<not> versionLess ''2.4.0'' ''1.5.0''" "\<not> versionLess ''x.4.5'' ''2.4.0''"
  "\<not> versionLess ''1.5.0'' ''x.4.5''"
  by (simp_all add: version_eval)

text \<open>
  C6. The comparator of the version facet is written to compare the strings when a
  component is not a number (\<open>// Sort versions semantically\<close>,
  \<open>// Fallback to string comparison\<close>), and the claim says so. It does not: a component
  that does not convert on both sides is passed over and the next component is
  compared. In v2.9.0 and v1.10.0 the majors \<open>v2\<close> and \<open>v1\<close> do not convert, the minors 9
  and 10 decide, and v2.9.0 is put first, against the order of the strings and against
  the order of the numbers. The comparator is not an order either: 1.5.0 is before 2.4.0
  by the majors, 2.4.0 before x.4.5 by the patches and x.4.5 before 1.5.0 by the minors,
  so that the list published for these three versions depends on the order in which the
  map of versions is visited.
\<close>

theorem versionLess_passes_over_components:
  "Atoi ''v2'' = None \<and> Atoi ''v1'' = None \<and>
   ''v1.10.0'' < ''v2.9.0'' \<and>
   versionLess ''v2.9.0'' ''v1.10.0'' \<and> \<not> versionLess ''v1.10.0'' ''v2.9.0'' \<and>
   sortSlice versionLess [''v1.10.0'', ''v2.9.0''] = [''v2.9.0'', ''v1.10.0''] \<and>
   sortSlice versionLess [''v2.9.0'', ''v1.10.0''] = [''v2.9.0'', ''v1.10.0''] \<and>
   versionLess ''1.5.0'' ''2.4.0'' \<and> versionLess ''2.4.0'' ''x.4.5'' \<and>
   versionLess ''x.4.5'' ''1.5.0'' \<and>
   sortSlice versionLess [''1.5.0'', ''2.4.0'', ''x.4.5''] = [''1.5.0'', ''2.4.0'', ''x.4.5''] \<and>
   sortSlice versionLess [''2.4.0'', ''x.4.5'', ''1.5.0''] = [''2.4.0'', ''x.4.5'', ''1.5.0'']"
proof -
  have a: "Atoi ''v2'' = None" "Atoi ''v1'' = None"
    by (simp_all add: version_eval)
  have l: "''v1.10.0'' < ''v2.9.0''" by simp
  have v: "versionLess ''v2.9.0'' ''v1.10.0''" "\<not> versionLess ''v1.10.0'' ''v2.9.0''"
    by (simp_all add: version_eval)
  have s2: "sortSlice versionLess [''v1.10.0'', ''v2.9.0''] = [''v2.9.0'', ''v1.10.0'']"
    "sortSlice versionLess [''v2.9.0'', ''v1.10.0''] = [''v2.9.0'', ''v1.10.0'']"
    by (simp_all add: sortSlice_def v)
  have s3: "sortSlice versionLess [''1.5.0'', ''2.4.0'', ''x.4.5''] =
      [''1.5.0'', ''2.4.0'', ''x.4.5'']"
    "sortSlice versionLess [''2.4.0'', ''x.4.5'', ''1.5.0''] =
      [''2.4.0'', ''x.4.5'', ''1.5.0'']"
    by (simp_all add: sortSlice_def versionLess_no_order)
  from a l v s2 s3 versionLess_no_order(1-3) show ?thesis by simp
qed
subsection \<open>Passes and the cache\<close>

lemma indexMetadata_cache_unchanged:
  "cacheService (snd (indexMetadata s3 rangeKeys h)) = cacheService h"
  by (simp add: indexMetadata_def Let_def split: option.splits)

lemma archive_files: "metadataFilesOf [object ''snapshot-30-a.tar.gz''] = []"
  by (simp add: metadataFilesOf_def object_def isSnapshotMetadataFile_def matchHere_def HasSuffix_def)

lemma fresh_miss: "cachedOptions (freshHandler\<lparr>listObjectsCalls := n\<rparr>) = None"
  by (simp add: cachedOptions_def freshHandler_def cacheGet_def)

lemma archive_pass:
  "indexMetadata archiveBucket (\<lambda>ks. ks) (freshHandler\<lparr>listObjectsCalls := n\<rparr>) =
     (NoMetadataFiles, freshHandler\<lparr>listObjectsCalls := n + 1\<rparr>)"
  unfolding indexMetadata_def fresh_miss
  by (simp add: archiveBucket_def archive_files freshHandler_def)

lemma cacheSet_then_hit:
  "cachedOptions (h\<lparr>cacheService := Some (cacheSet c metadataOptionsKey opts cacheExpiration)\<rparr>)
     = Some opts"
  by (simp add: cachedOptions_def cacheGet_def cacheSet_def)

lemma cacheDelete_then_miss:
  "cachedOptions (h\<lparr>cacheService := map_option (\<lambda>c. cacheDelete c metadataOptionsKey)
      (cacheService h)\<rparr>) = None"
proof (cases "cacheService h")
  case None
  then show ?thesis by (simp add: cachedOptions_def)
next
  case (Some c)
  have "map_of (filter (\<lambda>e. fst e \<noteq> k) c) k = None" for k
    by (induction c) auto
  with Some show ?thesis by (simp add: cachedOptions_def cacheGet_def cacheDelete_def)
qed

lemma DebugReindex_lists:
  "fst (DebugReindex s3 rangeKeys h) \<noteq> CacheHit \<and>
   listObjectsCalls (snd (DebugReindex s3 rangeKeys h)) = listObjectsCalls h + 1"
  unfolding DebugReindex_def
  by (simp add: indexMetadata_def cacheDelete_then_miss Let_def split: option.splits)

text \<open>
  C1. A pass is to store the facets it publishes in the cache under \<open>metadata:options\<close>
  for five minutes, so that the next pass is a cache hit and does not list the bucket.
  \<open>indexMetadata\<close> reads that key and \<open>DebugReindex\<close> deletes it, but no pass ever calls
  \<open>Set\<close> (\<open>cacheExpiration\<close> is declared and never used): the cache service is the same
  after a pass as before it. With a cache that holds nothing and a bucket without
  sidecars, the first pass publishes the empty facets and the cache still misses; the
  second pass lists the bucket again.
\<close>

theorem indexMetadata_never_persists:
  "cacheService (snd (indexMetadata s3 rangeKeys h)) = cacheService h \<and>
   indexMetadata archiveBucket (\<lambda>ks. ks) freshHandler =
     (NoMetadataFiles, freshHandler\<lparr>listObjectsCalls := 1\<rparr>) \<and>
   cachedOptions (freshHandler\<lparr>listObjectsCalls := 1\<rparr>) = None \<and>
   indexMetadata archiveBucket (\<lambda>ks. ks) (freshHandler\<lparr>listObjectsCalls := 1\<rparr>) =
     (NoMetadataFiles, freshHandler\<lparr>listObjectsCalls := 2\<rparr>)"
  using archive_pass[of 0] archive_pass[of 1] fresh_miss[of 1]
    indexMetadata_cache_unchanged[of s3 rangeKeys h]
  by (simp add: freshHandler_def)

subsection \<open>Failures during a pass\<close>

lemma processFile_versions:
  "versions (processFile s3 acc obj) =
     (case GetObject s3 (Key obj) of
        Body len (Strict sm) \<Rightarrow> addKnown (sSolanaVersion sm) (versions acc)
      | Body len (Generic raw) \<Rightarrow> addKnownField raw ''solana_version'' (versions acc)
      | _ \<Rightarrow> versions acc)"
  by (cases "extractSlotAndNode (Key obj)")
     (simp add: processFile_def split: fetched.splits sidecar.splits)

lemma processFile_statuses:
  "statuses (processFile s3 acc obj) =
     (case GetObject s3 (Key obj) of
        Body len (Strict sm) \<Rightarrow> addKnown (sStatus sm) (statuses acc)
      | Body len (Generic raw) \<Rightarrow> addKnownField raw ''status'' (statuses acc)
      | _ \<Rightarrow> statuses acc)"
  by (cases "extractSlotAndNode (Key obj)")
     (simp add: processFile_def split: fetched.splits sidecar.splits)

lemma processFile_uploaders:
  "uploaders (processFile s3 acc obj) =
     (case GetObject s3 (Key obj) of
        Body len (Strict sm) \<Rightarrow> addKnown (sUploadedBy sm) (uploaders acc)
      | Body len (Generic raw) \<Rightarrow> addKnownField raw ''uploaded_by'' (uploaders acc)
      | _ \<Rightarrow> uploaders acc)"
  by (cases "extractSlotAndNode (Key obj)")
     (simp add: processFile_def split: fetched.splits sidecar.splits)

lemmas processFile_content = processFile_versions processFile_statuses processFile_uploaders





lemma cleanKeys_setKey: "cleanKeys ks \<Longrightarrow> v \<noteq> [] \<Longrightarrow> v \<noteq> ''unknown'' \<Longrightarrow> cleanKeys (setKey v ks)"
  by (auto simp: cleanKeys_def setKey_def)

lemma cleanKeys_addKnown: "cleanKeys ks \<Longrightarrow> cleanKeys (addKnown v ks)"
  unfolding addKnown_def by (simp add: cleanKeys_setKey)

lemma cleanKeys_addKnownField: "cleanKeys ks \<Longrightarrow> cleanKeys (addKnownField raw k ks)"
  by (simp add: addKnownField_def cleanKeys_addKnown split: option.splits)

lemma cleanKeys_processFile:
  assumes "cleanKeys (versions acc)" "cleanKeys (statuses acc)" "cleanKeys (uploaders acc)"
  shows "cleanKeys (versions (processFile s3 acc obj)) \<and>
         cleanKeys (statuses (processFile s3 acc obj)) \<and>
         cleanKeys (uploaders (processFile s3 acc obj))"
proof (cases "GetObject s3 (Key obj)")
  case (Body len sc)
  then show ?thesis
    using assms
    by (cases sc) (simp_all add: processFile_content cleanKeys_addKnown cleanKeys_addKnownField)
qed (simp_all add: processFile_content assms)

lemma cleanKeys_fold:
  assumes "cleanKeys (versions acc)" "cleanKeys (statuses acc)" "cleanKeys (uploaders acc)"
  shows "cleanKeys (versions (foldl (processFile s3) acc fs)) \<and>
         cleanKeys (statuses (foldl (processFile s3) acc fs)) \<and>
         cleanKeys (uploaders (foldl (processFile s3) acc fs))"
  using assms
proof (induction fs arbitrary: acc)
  case Nil
  then show ?case by simp
next
  case (Cons obj fs)
  from cleanKeys_processFile[OF Cons.prems, of s3 obj]
  show ?case using Cons.IH[of "processFile s3 acc obj"] by simp
qed







lemma indexMetadata_list_failed:
  assumes "cachedOptions h = None" "ListObjects s3 = None"
  shows "indexMetadata s3 rangeKeys h =
           (ListFailed, h\<lparr>listObjectsCalls := listObjectsCalls h + 1\<rparr>)"
  using assms by (simp add: indexMetadata_def)

lemma indexMetadata_indexed:
  assumes "cachedOptions h = None" "ListObjects s3 = Some objects"
    "metadataFilesOf objects \<noteq> []"
  shows "indexMetadata s3 rangeKeys h =
    (Indexed,
     h\<lparr>listObjectsCalls := listObjectsCalls h + 1,
        filterOptions :=
          \<lparr>SolanaVersions = sortSlice versionLess (rangeKeys (versions
             (foldl (processFile s3) emptyAccum (metadataFilesOf objects)))),
           Statuses = sortStrings (rangeKeys (statuses
             (foldl (processFile s3) emptyAccum (metadataFilesOf objects)))),
           UploadedBys = sortStrings (rangeKeys (uploaders
             (foldl (processFile s3) emptyAccum (metadataFilesOf objects)))),
           Nodes = sortStrings (rangeKeys (nodes
             (foldl (processFile s3) emptyAccum (metadataFilesOf objects)))),
           SlotRanges = sortSlice slotRangeLess (rangeKeys (slotRanges
             (foldl (processFile s3) emptyAccum (metadataFilesOf objects))))\<rparr>\<rparr>)"
  using assms by (simp add: indexMetadata_def Let_def)

lemma indexMetadata_outcomes:
  "fst (indexMetadata s3 rangeKeys h) = CacheHit \<longleftrightarrow> cachedOptions h \<noteq> None"
  "fst (indexMetadata s3 rangeKeys h) = ListFailed \<longleftrightarrow>
     cachedOptions h = None \<and> ListObjects s3 = None"
  "fst (indexMetadata s3 rangeKeys h) = NoMetadataFiles \<longleftrightarrow>
     cachedOptions h = None \<and> (\<exists>objects. ListObjects s3 = Some objects \<and> metadataFilesOf objects = [])"
  "fst (indexMetadata s3 rangeKeys h) = Indexed \<longleftrightarrow>
     cachedOptions h = None \<and> (\<exists>objects. ListObjects s3 = Some objects \<and> metadataFilesOf objects \<noteq> [])"
  by (auto simp: indexMetadata_def Let_def split: option.splits)

lemma flaky_keys:
  "isSnapshotMetadataFile ''snapshot-1-a.json''"
  "extractSlotAndNode ''snapshot-1-a.json'' = (1, ''a'')"
  "isSnapshotMetadataFile ''snapshot-2-b.json''"
  "extractSlotAndNode ''snapshot-2-b.json'' = (2, ''b'')"
  "isSnapshotMetadataFile ''snapshot-3-c.json''"
  "extractSlotAndNode ''snapshot-3-c.json'' = (3, ''c'')"
  "isSnapshotMetadataFile ''snapshot-4-d.json''"
  "extractSlotAndNode ''snapshot-4-d.json'' = (4, ''d'')"
  "getSlotRange 1 = ''< 1M''" "getSlotRange 2 = ''< 1M''"
  "getSlotRange 3 = ''< 1M''" "getSlotRange 4 = ''< 1M''"
  by (simp_all add: classifier_eval)

lemma flaky_files:
  "ListObjects flakyBucket =
     Some [object ''snapshot-1-a.json'', object ''snapshot-2-b.json'',
           object ''snapshot-3-c.json'', object ''snapshot-4-d.json'']"
  "metadataFilesOf [object ''snapshot-1-a.json'', object ''snapshot-2-b.json'',
           object ''snapshot-3-c.json'', object ''snapshot-4-d.json''] =
     [object ''snapshot-1-a.json'', object ''snapshot-2-b.json'',
           object ''snapshot-3-c.json'', object ''snapshot-4-d.json'']"
  by (simp_all add: flakyBucket_def metadataFilesOf_def object_def flaky_keys HasSuffix_def)

lemma flaky_fetch:
  "GetObject flakyBucket ''snapshot-1-a.json'' = GetFailed"
  "GetObject flakyBucket ''snapshot-2-b.json'' =
     Body 20 (Strict \<lparr>sSolanaVersion = ''1.18.0'', sStatus = ''unknown'', sUploadedBy = []\<rparr>)"
  "GetObject flakyBucket ''snapshot-3-c.json'' =
     Body 30 (Generic [(''solana_version'', JString ''unknown''),
                       (''status'', JString ''ok''), (''uploaded_by'', JNumber 3)])"
  "GetObject flakyBucket ''snapshot-4-d.json'' = Body 5 Unparsable"
  by (simp_all add: flakyBucket_def)

lemma flaky_steps:
  "processFile flakyBucket emptyAccum (object ''snapshot-1-a.json'') =
     emptyAccum\<lparr>nodes := [''a''], slotRanges := [''< 1M'']\<rparr>"
  "processFile flakyBucket (emptyAccum\<lparr>nodes := [''a''], slotRanges := [''< 1M'']\<rparr>)
     (object ''snapshot-2-b.json'') =
     emptyAccum\<lparr>nodes := [''a'', ''b''], slotRanges := [''< 1M''], versions := [''1.18.0'']\<rparr>"
  "processFile flakyBucket
     (emptyAccum\<lparr>nodes := [''a'', ''b''], slotRanges := [''< 1M''], versions := [''1.18.0'']\<rparr>)
     (object ''snapshot-3-c.json'') =
     emptyAccum\<lparr>nodes := [''a'', ''b'', ''c''], slotRanges := [''< 1M''],
       versions := [''1.18.0''], statuses := [''ok'']\<rparr>"
  "processFile flakyBucket
     (emptyAccum\<lparr>nodes := [''a'', ''b'', ''c''], slotRanges := [''< 1M''],
       versions := [''1.18.0''], statuses := [''ok'']\<rparr>)
     (object ''snapshot-4-d.json'') =
     emptyAccum\<lparr>nodes := [''a'', ''b'', ''c'', ''d''], slotRanges := [''< 1M''],
       versions := [''1.18.0''], statuses := [''ok'']\<rparr>"
  by (simp_all add: processFile_def object_def flaky_keys flaky_fetch emptyAccum_def
      setKey_def addKnown_def addKnownField_def jstring_def)

lemma flaky_acc:
  "foldl (processFile flakyBucket) emptyAccum
     [object ''snapshot-1-a.json'', object ''snapshot-2-b.json'',
      object ''snapshot-3-c.json'', object ''snapshot-4-d.json''] =
   emptyAccum\<lparr>nodes := [''a'', ''b'', ''c'', ''d''], slotRanges := [''< 1M''],
       versions := [''1.18.0''], statuses := [''ok'']\<rparr>"
  by (simp add: flaky_steps)

lemma flaky_sorted:
  "sortSlice versionLess [''1.18.0''] = [''1.18.0'']"
  "sortStrings [''ok''] = [''ok'']" "sortStrings [] = []"
  "sortStrings [''a'', ''b'', ''c'', ''d''] = [''a'', ''b'', ''c'', ''d'']"
  "sortSlice slotRangeLess [''< 1M''] = [''< 1M'']"
  by (simp_all add: sortSlice_def sortStrings_def)

lemma fresh_miss0: "cachedOptions freshHandler = None"
  by (simp add: cachedOptions_def freshHandler_def cacheGet_def)

lemma flaky_pass:
  "indexMetadata flakyBucket (\<lambda>ks. ks) freshHandler =
     (Indexed, freshHandler\<lparr>listObjectsCalls := 1, filterOptions := flakyOptions\<rparr>)"
proof -
  have ne: "metadataFilesOf [object ''snapshot-1-a.json'', object ''snapshot-2-b.json'',
           object ''snapshot-3-c.json'', object ''snapshot-4-d.json''] \<noteq> []"
    unfolding flaky_files(2) by simp
  note p = indexMetadata_indexed[OF fresh_miss0 flaky_files(1) ne, of "\<lambda>ks. ks",
      unfolded flaky_files(2) flaky_acc]
  have f: "versions (emptyAccum\<lparr>nodes := [''a'', ''b'', ''c'', ''d''], slotRanges := [''< 1M''],
       versions := [''1.18.0''], statuses := [''ok'']\<rparr>) = [''1.18.0'']"
    "statuses (emptyAccum\<lparr>nodes := [''a'', ''b'', ''c'', ''d''], slotRanges := [''< 1M''],
       versions := [''1.18.0''], statuses := [''ok'']\<rparr>) = [''ok'']"
    "uploaders (emptyAccum\<lparr>nodes := [''a'', ''b'', ''c'', ''d''], slotRanges := [''< 1M''],
       versions := [''1.18.0''], statuses := [''ok'']\<rparr>) = []"
    "nodes (emptyAccum\<lparr>nodes := [''a'', ''b'', ''c'', ''d''], slotRanges := [''< 1M''],
       versions := [''1.18.0''], statuses := [''ok'']\<rparr>) = [''a'', ''b'', ''c'', ''d'']"
    "slotRanges (emptyAccum\<lparr>nodes := [''a'', ''b'', ''c'', ''d''], slotRanges := [''< 1M''],
       versions := [''1.18.0''], statuses := [''ok'']\<rparr>) = [''< 1M'']"
    by (simp_all add: emptyAccum_def)
  show ?thesis
    unfolding p f flaky_sorted by (simp add: flakyOptions_def freshHandler_def)
qed

lemma down_pass:
  "indexMetadata downBucket (\<lambda>ks. ks)
     (freshHandler\<lparr>listObjectsCalls := 1, filterOptions := flakyOptions\<rparr>) =
   (ListFailed, freshHandler\<lparr>listObjectsCalls := 2, filterOptions := flakyOptions\<rparr>)"
  by (simp add: indexMetadata_def cachedOptions_def cacheGet_def freshHandler_def downBucket_def)









subsection \<open>Values that are never offered\<close>

lemma addKnown_unknown: "addKnown [] ks = ks" "addKnown ''unknown'' ks = ks"
  by (simp_all add: addKnown_def)

lemma addKnownField_unknown:
  "jstring rawData k = Some [] \<or> jstring rawData k = Some ''unknown'' \<or>
   jstring rawData k = None \<Longrightarrow> addKnownField rawData k ks = ks"
  by (auto simp: addKnownField_def addKnown_unknown)

lemma cleanKeys_sorted:
  assumes "\<forall>ks. set (rangeKeys ks) = set ks" "cleanKeys ks"
  shows "cleanKeys (sortSlice lt (rangeKeys ks))"
  using assms by (simp add: cleanKeys_def set_sortSlice)

lemma optionsClean_pass:
  assumes rk: "\<forall>ks. set (rangeKeys ks) = set ks"
    and o: "fst (indexMetadata s3 rangeKeys h) \<in> {NoMetadataFiles, Indexed}"
  shows "optionsClean (filterOptions (snd (indexMetadata s3 rangeKeys h)))"
proof -
  from o consider (none) "fst (indexMetadata s3 rangeKeys h) = NoMetadataFiles"
    | (ind) "fst (indexMetadata s3 rangeKeys h) = Indexed" by auto
  then show ?thesis
  proof cases
    case none
    then have "filterOptions (snd (indexMetadata s3 rangeKeys h)) = emptyOptions"
      by (auto simp: indexMetadata_def Let_def split: option.splits if_splits)
    then show ?thesis by (simp add: optionsClean_def emptyOptions_def)
  next
    case ind
    then obtain objects where m: "cachedOptions h = None" "ListObjects s3 = Some objects"
      "metadataFilesOf objects \<noteq> []"
      by (auto simp: indexMetadata_outcomes)
    have e: "cleanKeys (versions emptyAccum)" "cleanKeys (statuses emptyAccum)"
      "cleanKeys (uploaders emptyAccum)"
      by (simp_all add: cleanKeys_def emptyAccum_def)
    note c = cleanKeys_fold[OF e, of s3 "metadataFilesOf objects"]
    have "cleanKeys (sortSlice versionLess (rangeKeys (versions
             (foldl (processFile s3) emptyAccum (metadataFilesOf objects)))))"
      "cleanKeys (sortStrings (rangeKeys (statuses
             (foldl (processFile s3) emptyAccum (metadataFilesOf objects)))))"
      "cleanKeys (sortStrings (rangeKeys (uploaders
             (foldl (processFile s3) emptyAccum (metadataFilesOf objects)))))"
      using c rk by (simp_all add: cleanKeys_sorted sortStrings_def)
    then show ?thesis
      unfolding indexMetadata_indexed[OF m]
      by (simp add: optionsClean_def cleanKeys_def)
  qed
qed

lemma optionsClean_invariant:
  assumes rk: "\<forall>ks. set (rangeKeys ks) = set ks"
    and h: "optionsClean (filterOptions h)"
    and c: "\<forall>opts. cachedOptions h = Some opts \<longrightarrow> optionsClean opts"
  shows "optionsClean (filterOptions (snd (indexMetadata s3 rangeKeys h)))"
proof (cases "fst (indexMetadata s3 rangeKeys h)")
  case CacheHit
  then obtain opts where "cachedOptions h = Some opts"
    by (auto simp: indexMetadata_outcomes)
  with c show ?thesis by (simp add: indexMetadata_def)
next
  case ListFailed
  then have "cachedOptions h = None" "ListObjects s3 = None"
    by (simp_all add: indexMetadata_outcomes)
  then show ?thesis using h by (simp add: indexMetadata_list_failed)
next
  case NoMetadataFiles
  then show ?thesis using optionsClean_pass[OF rk] by simp
next
  case Indexed
  then show ?thesis using optionsClean_pass[OF rk] by simp
qed

text \<open>
  C10. A field that is empty or \<open>unknown\<close> adds nothing to a facet, whether the sidecar
  was decoded into \<open>SimpleMetadata\<close> or as a generic map. So the versions, statuses and
  uploaders that a pass computes (one that ends as \<open>Indexed\<close> or finds no sidecar) hold
  neither the empty string nor \<open>unknown\<close>, whatever order \<open>range\<close> visits the keys in. A
  pass that hits the cache publishes what the cache holds, and a pass whose listing
  fails leaves the facets as they were: the facets stay free of both values as long as
  the cached ones are.
\<close>

theorem facets_exclude_unknown:
  "addKnown [] ks = ks \<and> addKnown ''unknown'' ks = ks \<and>
   (jstring rawData k = Some [] \<or> jstring rawData k = Some ''unknown'' \<longrightarrow>
      addKnownField rawData k ks = ks) \<and>
   ((\<forall>ks. set (rangeKeys ks) = set ks) \<and>
    fst (indexMetadata s3 rangeKeys h) \<in> {NoMetadataFiles, Indexed} \<longrightarrow>
      optionsClean (filterOptions (snd (indexMetadata s3 rangeKeys h)))) \<and>
   ((\<forall>ks. set (rangeKeys ks) = set ks) \<and> optionsClean (filterOptions h) \<and>
    (\<forall>opts. cachedOptions h = Some opts \<longrightarrow> optionsClean opts) \<longrightarrow>
      optionsClean (filterOptions (snd (indexMetadata s3 rangeKeys h))))"
  using addKnown_unknown[of ks] addKnownField_unknown[of rawData k ks]
    optionsClean_pass[of rangeKeys s3 h] optionsClean_invariant[of rangeKeys h s3]
  by blast

theorem facets_exclude_unknown_witness:
  "addKnownField [(''solana_version'', JString ''unknown'')] ''solana_version'' [''1.18.0''] =
     [''1.18.0''] \<and>
   indexMetadata flakyBucket (\<lambda>ks. ks) freshHandler =
     (Indexed, freshHandler\<lparr>listObjectsCalls := 1, filterOptions := flakyOptions\<rparr>) \<and>
   optionsClean (filterOptions (snd (indexMetadata flakyBucket (\<lambda>ks. ks) freshHandler)))"
proof -
  have j: "jstring [(''solana_version'', JString ''unknown'')] ''solana_version'' = Some [] \<or>
      jstring [(''solana_version'', JString ''unknown'')] ''solana_version'' = Some ''unknown''"
    by (simp add: jstring_def)
  have r: "\<forall>ks::string list. set ((\<lambda>ks. ks) ks) = set ks" by simp
  have o: "fst (indexMetadata flakyBucket (\<lambda>ks. ks) freshHandler) \<in> {NoMetadataFiles, Indexed}"
    by (simp add: flaky_pass)
  note t = facets_exclude_unknown
    [where ks = "[''1.18.0'']" and rawData = "[(''solana_version'', JString ''unknown'')]"
       and k = "''solana_version''" and rangeKeys = "\<lambda>ks. ks" and ?s3.0 = flakyBucket
       and h = freshHandler]
  from t j have "addKnownField [(''solana_version'', JString ''unknown'')] ''solana_version''
      [''1.18.0''] = [''1.18.0'']"
    by blast
  moreover from t r o
  have "optionsClean (filterOptions (snd (indexMetadata flakyBucket (\<lambda>ks. ks) freshHandler)))"
    by blast
  ultimately show ?thesis using flaky_pass by simp
qed

section \<open>Properties of the realtime hub\<close>

text \<open>
  The control loop of \<open>Run\<close> takes one event at a time, so a broadcast is a function of
  the hub's state when the event is taken. Every send of the broadcast is a \<open>select\<close>
  with a \<open>default\<close> branch: the outcome \<open>Blocked\<close> does not occur in \<open>broadcastTo\<close>.
\<close>

lemma broadcastTo_open:
  assumes "\<not> closed (send h c)"
  shows "broadcastTo m c h =
     Done (h\<lparr>send := (send h)(c := deliver m (send h c)),
             clients := (if length (buf (send h c)) < sendCap then clients h
                         else removeAll c (clients h))\<rparr>)"
  using assms by (simp add: broadcastTo_def deliver_def Let_def)

lemma broadcastLoop_result:
  assumes "distinct cs" "\<forall>c \<in> set cs. \<not> closed (send h c)"
  shows "\<exists>h'. broadcastLoop m cs h = Done h' \<and>
      (\<forall>c. send h' c = (if c \<in> set cs then deliver m (send h c) else send h c)) \<and>
      clients h' = filter (\<lambda>c. c \<notin> set cs \<or> length (buf (send h c)) < sendCap) (clients h) \<and>
      lastFiles h' = lastFiles h"
  using assms
proof (induction cs arbitrary: h)
  case Nil
  then show ?case by simp
next
  case (Cons c cs)
  define h1 where "h1 = h\<lparr>send := (send h)(c := deliver m (send h c)),
             clients := (if length (buf (send h c)) < sendCap then clients h
                         else removeAll c (clients h))\<rparr>"
  from Cons.prems have op: "\<not> closed (send h c)" and nc: "c \<notin> set cs" and d: "distinct cs"
    by auto
  have b: "broadcastTo m c h = Done h1"
    unfolding h1_def by (rule broadcastTo_open[OF op])
  have op1: "\<forall>x \<in> set cs. \<not> closed (send h1 x)"
    using Cons.prems nc by (auto simp: h1_def)
  from Cons.IH[OF d op1] obtain h' where
    l: "broadcastLoop m cs h1 = Done h'"
    and s: "\<And>x. send h' x = (if x \<in> set cs then deliver m (send h1 x) else send h1 x)"
    and k: "clients h' =
        filter (\<lambda>x. x \<notin> set cs \<or> length (buf (send h1 x)) < sendCap) (clients h1)"
    and f: "lastFiles h' = lastFiles h1"
    by blast
  have s1: "\<And>x. x \<noteq> c \<Longrightarrow> send h1 x = send h x" "send h1 c = deliver m (send h c)"
    by (simp_all add: h1_def)
  have s2: "send h1 x = send h x" if "x \<in> set cs" for x
  proof -
    from that nc have "x \<noteq> c" by auto
    then show ?thesis by (rule s1(1))
  qed
  have "broadcastLoop m (c # cs) h = Done h'" using b l by simp
  moreover have "\<forall>x. send h' x = (if x \<in> set (c # cs) then deliver m (send h x) else send h x)"
  proof
    fix x
    show "send h' x = (if x \<in> set (c # cs) then deliver m (send h x) else send h x)"
    proof (cases "x = c")
      case True
      then show ?thesis using s[of x] s1(2) nc by simp
    next
      case False
      then show ?thesis using s[of x] s1(1)[OF False] by simp
    qed
  qed
  moreover have "clients h' =
      filter (\<lambda>x. x \<notin> set (c # cs) \<or> length (buf (send h x)) < sendCap) (clients h)"
  proof (cases "length (buf (send h c)) < sendCap")
    case True
    then have "clients h1 = clients h" by (simp add: h1_def)
    moreover have "(x \<notin> set cs \<or> length (buf (send h1 x)) < sendCap) \<longleftrightarrow>
        (x \<notin> set (c # cs) \<or> length (buf (send h x)) < sendCap)" for x
    proof (cases "x = c")
      case xc: True
      then show ?thesis using True nc by simp
    next
      case False
      then show ?thesis using s2[of x] by auto
    qed
    ultimately show ?thesis using k by simp
  next
    case False
    then have c1: "clients h1 = filter (\<lambda>x. x \<noteq> c) (clients h)"
      by (simp add: h1_def removeAll_filter_not_eq) (metis)
    have "\<And>x. (x \<noteq> c \<and> (x \<notin> set cs \<or> length (buf (send h1 x)) < sendCap)) \<longleftrightarrow>
        (x \<notin> set (c # cs) \<or> length (buf (send h x)) < sendCap)"
      using False s2 nc by auto
    then show ?thesis unfolding k c1 filter_filter by (simp cong: filter_cong)
  qed
  moreover have "lastFiles h' = lastFiles h" using f by (simp add: h1_def)
  ultimately show ?case by blast
qed


lemma broadcast_step:
  assumes "hubInv h"
  shows "\<exists>h'. broadcast m h = Done h' \<and> hubInv h' \<and> lastFiles h' = lastFiles h \<and>
      (\<forall>c. send h' c = (if c \<in> set (clients h) then deliver m (send h c) else send h c)) \<and>
      clients h' = filter (\<lambda>c. length (buf (send h c)) < sendCap) (clients h)"
proof -
  from assms have d: "distinct (clients h)" and o: "\<forall>c \<in> set (clients h). \<not> closed (send h c)"
    by (simp_all add: hubInv_def list_all_iff)
  from broadcastLoop_result[OF d o, of m] obtain h' where
    b: "broadcastLoop m (clients h) h = Done h'"
    and s: "\<And>c. send h' c = (if c \<in> set (clients h) then deliver m (send h c) else send h c)"
    and k: "clients h' =
        filter (\<lambda>c. c \<notin> set (clients h) \<or> length (buf (send h c)) < sendCap) (clients h)"
    and f: "lastFiles h' = lastFiles h"
    by blast
  have k': "clients h' = filter (\<lambda>c. length (buf (send h c)) < sendCap) (clients h)"
    unfolding k by (rule filter_cong) auto
  have "distinct (clients h')" unfolding k' using d by simp
  moreover have "\<not> closed (send h' c)" if "c \<in> set (clients h')" for c
  proof -
    from that have "c \<in> set (clients h)" "length (buf (send h c)) < sendCap"
      by (simp_all add: k')
    then show ?thesis using o by (simp add: s deliver_def)
  qed
  ultimately have "hubInv h'" by (simp add: hubInv_def list_all_iff)
  then show ?thesis using b s k' f by (auto simp: broadcast_def)
qed

lemma hubInv_NewHub: "hubInv NewHub"
  by (simp add: hubInv_def NewHub_def)

lemma hubInv_ServeWs:
  assumes "hubInv h" "client \<notin> set (clients h)"
  shows "\<exists>h'. ServeWs marshal client h = Done h' \<and> hubInv h'"
  using assms
  by (auto simp: ServeWs_def register_def hubInv_def Let_def sendCap_def list_all_iff
      split: option.splits)

lemma hubInv_unregister:
  assumes "hubInv h"
  shows "\<exists>h'. unregister client h = Done h' \<and> hubInv h'"
  using assms
  by (auto simp: unregister_def hubInv_def list_all_iff distinct_removeAll)

lemma hubInv_writePumpReceive:
  assumes "hubInv h"
  shows "hubInv (writePumpReceive client h)"
  using assms
  by (auto simp: writePumpReceive_def hubInv_def list_all_iff split: list.splits)

lemma hubInv_reachable: "reachable h \<Longrightarrow> hubInv h"
proof (induction rule: reachable.induct)
  case start
  then show ?case by (rule hubInv_NewHub)
next
  case (served h client marshal h')
  then show ?case using hubInv_ServeWs[of h client marshal] by auto
next
  case (unregistered h client h')
  then show ?case using hubInv_unregister[of h client] by auto
next
  case (broadcasted h message h')
  then show ?case using broadcast_step[of h message] by auto
next
  case (received h client)
  from received.IH show ?case by (rule hubInv_writePumpReceive)
next
  case (polled h objects)
  then show ?case by (simp add: hubInv_def)
qed

text \<open>
  C8. In a hub whose registered clients have open channels, as in every state the hub
  reaches (\<open>hubInv_reachable\<close>), a broadcast ends (it neither blocks nor panics). A registered client whose queue is full is removed from the client
  set and its channel is closed with its queue as it was; every other registered client
  stays registered with the message at the end of its queue; channels of clients that
  are not registered are not touched. The same holds for the next broadcast: the evicted
  client stays out and its channel is left alone, and a client that still has room gets
  that message too.
\<close>

theorem broadcast_evicts_full_clients:
  "hubInv h \<longrightarrow>
   (\<exists>h'. broadcast message h = Done h' \<and> hubInv h' \<and>
      clients h' = filter (\<lambda>c. length (buf (send h c)) < sendCap) (clients h) \<and>
      (\<forall>c \<in> set (clients h). \<not> length (buf (send h c)) < sendCap \<longrightarrow>
         c \<notin> set (clients h') \<and> closed (send h' c) \<and> buf (send h' c) = buf (send h c)) \<and>
      (\<forall>c \<in> set (clients h). length (buf (send h c)) < sendCap \<longrightarrow>
         c \<in> set (clients h') \<and> \<not> closed (send h' c) \<and>
         buf (send h' c) = buf (send h c) @ [message]) \<and>
      (\<forall>c. c \<notin> set (clients h) \<longrightarrow> send h' c = send h c) \<and>
      (\<forall>next. \<exists>h''. broadcast next h' = Done h'' \<and>
         (\<forall>c \<in> set (clients h). \<not> length (buf (send h c)) < sendCap \<longrightarrow>
            c \<notin> set (clients h'') \<and> send h'' c = send h' c) \<and>
         (\<forall>c \<in> set (clients h). length (buf (send h c)) + 1 < sendCap \<longrightarrow>
            c \<in> set (clients h'') \<and>
            buf (send h'' c) = buf (send h c) @ [message, next])))"
proof
  assume inv: "hubInv h"
  then have o: "\<And>c. c \<in> set (clients h) \<Longrightarrow> \<not> closed (send h c)"
    by (simp add: hubInv_def list_all_iff)
  from broadcast_step[OF inv, of message] obtain h' where
    b: "broadcast message h = Done h'" and inv': "hubInv h'"
    and s: "\<And>c. send h' c = (if c \<in> set (clients h) then deliver message (send h c) else send h c)"
    and k: "clients h' = filter (\<lambda>c. length (buf (send h c)) < sendCap) (clients h)"
    by blast
  have full: "c \<notin> set (clients h') \<and> closed (send h' c) \<and> buf (send h' c) = buf (send h c)"
    if "c \<in> set (clients h)" "\<not> length (buf (send h c)) < sendCap" for c
    using that by (simp add: k s deliver_def)
  have room: "c \<in> set (clients h') \<and> \<not> closed (send h' c) \<and>
      buf (send h' c) = buf (send h c) @ [message]"
    if "c \<in> set (clients h)" "length (buf (send h c)) < sendCap" for c
    using that o[of c] by (simp add: k s deliver_def)
  have other: "send h' c = send h c" if "c \<notin> set (clients h)" for c
    using that by (simp add: s)
  have later: "\<exists>h''. broadcast next h' = Done h'' \<and>
         (\<forall>c \<in> set (clients h). \<not> length (buf (send h c)) < sendCap \<longrightarrow>
            c \<notin> set (clients h'') \<and> send h'' c = send h' c) \<and>
         (\<forall>c \<in> set (clients h). length (buf (send h c)) + 1 < sendCap \<longrightarrow>
            c \<in> set (clients h'') \<and>
            buf (send h'' c) = buf (send h c) @ [message, next])" for "next"
  proof -
    from broadcast_step[OF inv', of "next"] obtain h'' where
      b2: "broadcast next h' = Done h''"
      and s2: "\<And>c. send h'' c =
          (if c \<in> set (clients h') then deliver next (send h' c) else send h' c)"
      and k2: "clients h'' = filter (\<lambda>c. length (buf (send h' c)) < sendCap) (clients h')"
      by blast
    have "c \<notin> set (clients h'') \<and> send h'' c = send h' c"
      if "c \<in> set (clients h)" "\<not> length (buf (send h c)) < sendCap" for c
      using full[OF that] by (simp add: k2 s2)
    moreover have "c \<in> set (clients h'') \<and>
        buf (send h'' c) = buf (send h c) @ [message, next]"
      if "c \<in> set (clients h)" "length (buf (send h c)) + 1 < sendCap" for c
    proof -
      from that have "length (buf (send h c)) < sendCap" by simp
      from room[OF that(1) this] that(2) show ?thesis
        by (simp add: k2 s2 deliver_def)
    qed
    ultimately show ?thesis using b2 by blast
  qed
  show "\<exists>h'. broadcast message h = Done h' \<and> hubInv h' \<and>
      clients h' = filter (\<lambda>c. length (buf (send h c)) < sendCap) (clients h) \<and>
      (\<forall>c \<in> set (clients h). \<not> length (buf (send h c)) < sendCap \<longrightarrow>
         c \<notin> set (clients h') \<and> closed (send h' c) \<and> buf (send h' c) = buf (send h c)) \<and>
      (\<forall>c \<in> set (clients h). length (buf (send h c)) < sendCap \<longrightarrow>
         c \<in> set (clients h') \<and> \<not> closed (send h' c) \<and>
         buf (send h' c) = buf (send h c) @ [message]) \<and>
      (\<forall>c. c \<notin> set (clients h) \<longrightarrow> send h' c = send h c) \<and>
      (\<forall>next. \<exists>h''. broadcast next h' = Done h'' \<and>
         (\<forall>c \<in> set (clients h). \<not> length (buf (send h c)) < sendCap \<longrightarrow>
            c \<notin> set (clients h'') \<and> send h'' c = send h' c) \<and>
         (\<forall>c \<in> set (clients h). length (buf (send h c)) + 1 < sendCap \<longrightarrow>
            c \<in> set (clients h'') \<and>
            buf (send h'' c) = buf (send h c) @ [message, next]))"
    using b inv' k full room other later by blast
qed

lemma busy_inv: "hubInv busyHub"
  by (simp add: hubInv_def busyHub_def)

lemma busy_lengths:
  "clients busyHub = [1, 2]"
  "\<not> length (buf (send busyHub 1)) < sendCap" "length (buf (send busyHub 2)) + 1 < sendCap"
  "buf (send busyHub 2) = []" "buf (send busyHub 1) = replicate 256 ''old''"
  by (simp_all add: busyHub_def sendCap_def)

theorem broadcast_evicts_full_clients_witness:
  "(case broadcast ''new'' busyHub of
      Done h' \<Rightarrow>
        clients h' = [2] \<and> closed (send h' 1) \<and> buf (send h' 1) = replicate 256 ''old'' \<and>
        \<not> closed (send h' 2) \<and> buf (send h' 2) = [''new''] \<and>
        (case broadcast ''newer'' h' of
           Done h'' \<Rightarrow>
             clients h'' = [2] \<and> buf (send h'' 1) = replicate 256 ''old'' \<and>
             buf (send h'' 2) = [''new'', ''newer'']
         | _ \<Rightarrow> False)
    | _ \<Rightarrow> False)"
proof -
  from broadcast_evicts_full_clients[of busyHub "''new''"] busy_inv obtain h' where
    b: "broadcast ''new'' busyHub = Done h'"
    and k: "clients h' = filter (\<lambda>c. length (buf (send busyHub c)) < sendCap) (clients busyHub)"
    and full: "\<forall>c \<in> set (clients busyHub). \<not> length (buf (send busyHub c)) < sendCap \<longrightarrow>
         c \<notin> set (clients h') \<and> closed (send h' c) \<and> buf (send h' c) = buf (send busyHub c)"
    and room: "\<forall>c \<in> set (clients busyHub). length (buf (send busyHub c)) < sendCap \<longrightarrow>
         c \<in> set (clients h') \<and> \<not> closed (send h' c) \<and>
         buf (send h' c) = buf (send busyHub c) @ [''new'']"
    and later: "\<forall>next. \<exists>h''. broadcast next h' = Done h'' \<and>
         (\<forall>c \<in> set (clients busyHub). \<not> length (buf (send busyHub c)) < sendCap \<longrightarrow>
            c \<notin> set (clients h'') \<and> send h'' c = send h' c) \<and>
         (\<forall>c \<in> set (clients busyHub). length (buf (send busyHub c)) + 1 < sendCap \<longrightarrow>
            c \<in> set (clients h'') \<and>
            buf (send h'' c) = buf (send busyHub c) @ [''new'', next])"
    by blast
  from later obtain h'' where
    b2: "broadcast ''newer'' h' = Done h''"
    and full2: "\<forall>c \<in> set (clients busyHub). \<not> length (buf (send busyHub c)) < sendCap \<longrightarrow>
            c \<notin> set (clients h'') \<and> send h'' c = send h' c"
    and room2: "\<forall>c \<in> set (clients busyHub). length (buf (send busyHub c)) + 1 < sendCap \<longrightarrow>
            c \<in> set (clients h'') \<and>
            buf (send h'' c) = buf (send busyHub c) @ [''new'', ''newer'']"
    by blast
  have k1: "clients h' = [2]"
    unfolding k by (simp add: busyHub_def sendCap_def)
  have c1: "closed (send h' 1)" "buf (send h' 1) = replicate 256 ''old''"
    using full busy_lengths by simp_all
  have c2: "\<not> closed (send h' 2)" "buf (send h' 2) = [''new'']"
    using room busy_lengths by simp_all
  have d1: "send h'' 1 = send h' 1" "1 \<notin> set (clients h'')"
    using full2 busy_lengths by simp_all
  have d2: "buf (send h'' 2) = [''new'', ''newer'']" "2 \<in> set (clients h'')"
    using room2 busy_lengths by simp_all
  from broadcast_step[of h' "''newer''"] broadcast_evicts_full_clients[of busyHub "''new''"]
    busy_inv b b2
  have "clients h'' = filter (\<lambda>c. length (buf (send h' c)) < sendCap) (clients h')"
    by auto
  then have k2: "clients h'' = [2]"
    using k1 c2 by (simp add: sendCap_def)
  show ?thesis
    using k1 c1 c2 d1 d2 k2 by (simp add: b b2)
qed

end
